theory Spec2Isabelle
  imports Main "HOL-Library.Word"
begin

section \<open>Data model of scheduler\_GEDF\_NP.c\<close>

text \<open>
  C types: \<open>size_t\<close> and the reaction index are 64-bit unsigned words, \<open>int\<close> is a
  32-bit word read through \<open>sint\<close>. Pointers are addresses (\<open>nat\<close>); address 0 of the
  priority-queue memory is the null pointer and is never allocated. A \<open>reaction_t*\<close>
  is \<open>nat option\<close>, \<open>None\<close> being \<open>NULL\<close>.
\<close>

type_synonym size_t = "64 word"
type_synonym index_t = "64 word"
type_synonym c_int = "32 word"

datatype reaction_status_t = inactive | queued | running

record reaction_t =
  index :: index_t
  status :: reaction_status_t
  name :: string

text \<open>
  Modelled from the spec: \<open>tag_t\<close> and \<open>compare_tags\<close> (tag.h is not part of the
  sources at hand). A tag is a pair of logical time and microstep, ordered
  lexicographically; \<open>compare_tags\<close> returns -1, 0 or 1.
\<close>

record tag_t =
  time :: int
  microstep :: nat

definition compare_tags :: "tag_t \<Rightarrow> tag_t \<Rightarrow> int" where
  "compare_tags tag1 tag2 =
     (if time tag1 < time tag2 then - 1
      else if time tag1 > time tag2 then 1
      else if microstep tag1 < microstep tag2 then - 1
      else if microstep tag1 > microstep tag2 then 1
      else 0)"

text \<open>
  Compile-time parameters. \<open>MAX_REACTION_LEVEL\<close> is an \<open>int\<close> macro that also sizes
  the array \<open>vector_of_reaction_qs[MAX_REACTION_LEVEL + 1]\<close>; \<open>FEDERATED\<close> says whether
  the \<open>#ifdef FEDERATED\<close> blocks are compiled; \<open>LEVEL\<close> is the macro that projects
  the level out of a reaction index (its definition is outside the sources at hand,
  so it is a parameter).
\<close>

record config =
  MAX_REACTION_LEVEL :: c_int
  FEDERATED :: bool
  LEVEL :: "index_t \<Rightarrow> size_t"

definition max_level :: "config \<Rightarrow> size_t" where
  "max_level cfg = ucast (MAX_REACTION_LEVEL cfg)"

text \<open>
  Every call into the platform, the priority queue, the semaphore and the external
  tag machinery is recorded, in order, in the \<open>trace\<close> of the state.
\<close>

datatype mutex_id = global_mutex | executing_q_mutex

datatype event =
    MutexInit mutex_id
  | MutexLock mutex_id
  | MutexUnlock mutex_id
  | SemaphoreNew size_t
  | SemaphoreRelease size_t
  | SemaphoreAcquire
  | SemaphoreDestroy
  | PqueueInit nat
  | PqueueFree nat
  | PqueueInsert nat nat
  | PqueuePop nat "nat option"
  | LogicalTagComplete tag_t
  | NextLocked

datatype lf_mutex_t = uninitialized | unlocked | locked

datatype error =
    ErrorPrintAndExit string
  | InvalidPointer
  | OutOfBounds

text \<open>
  The globals of the file (leading underscores dropped), the external globals
  \<open>mutex\<close>, \<open>current_tag\<close> and \<open>stop_tag\<close>, and the two memories the pointers
  refer to: \<open>reactions\<close> holds the \<open>reaction_t\<close> objects, \<open>pqueues\<close> the live
  priority queues (\<open>None\<close>: not allocated, or freed).
\<close>

record sched =
  reactions :: "nat \<Rightarrow> reaction_t"
  pqueues :: "nat \<Rightarrow> nat list option"
  pqueue_next :: nat
  mutex :: lf_mutex_t
  current_tag :: tag_t
  stop_tag :: tag_t
  lf_sched_semaphore :: "size_t option"
  lf_sched_should_stop :: bool
  vector_of_reaction_qs :: "nat list"
  executing_q :: nat
  lf_sched_number_of_workers :: size_t
  lf_sched_number_of_idle_workers :: size_t
  lf_logical_tag_completed :: bool
  lf_sched_executing_q_mutex :: lf_mutex_t
  lf_sched_next_reaction_level :: size_t
  trace :: "event list"

section \<open>Platform and library primitives\<close>

text \<open>
  Modelled from the spec: the platform mutex (\<open>lf_mutex_init\<close>, \<open>lf_mutex_lock\<close>,
  \<open>lf_mutex_unlock\<close>; platform.h). Waiting for another holder is not part of these
  functions; the transition system further down enables a locking step only when
  the mutex is free.
\<close>

definition set_mutex :: "mutex_id \<Rightarrow> lf_mutex_t \<Rightarrow> sched \<Rightarrow> sched" where
  "set_mutex m v s =
     (case m of
        global_mutex \<Rightarrow> s\<lparr>mutex := v\<rparr>
      | executing_q_mutex \<Rightarrow> s\<lparr>lf_sched_executing_q_mutex := v\<rparr>)"

definition lf_mutex_init :: "mutex_id \<Rightarrow> sched \<Rightarrow> sched" where
  "lf_mutex_init m s = (set_mutex m unlocked s)\<lparr>trace := trace s @ [MutexInit m]\<rparr>"

definition lf_mutex_lock :: "mutex_id \<Rightarrow> sched \<Rightarrow> sched" where
  "lf_mutex_lock m s = (set_mutex m locked s)\<lparr>trace := trace s @ [MutexLock m]\<rparr>"

definition lf_mutex_unlock :: "mutex_id \<Rightarrow> sched \<Rightarrow> sched" where
  "lf_mutex_unlock m s = (set_mutex m unlocked s)\<lparr>trace := trace s @ [MutexUnlock m]\<rparr>"

text \<open>
  Modelled from the spec: the atomic operations of the platform
  (\<open>lf_bool_compare_and_swap\<close>, \<open>lf_atomic_fetch_add\<close>). The compare-and-swap
  returns whether the old value was the expected one, and the value stored.
\<close>

definition lf_bool_compare_and_swap :: "'a \<Rightarrow> 'a \<Rightarrow> 'a \<Rightarrow> bool \<times> 'a" where
  "lf_bool_compare_and_swap v oldval newval =
     (if v = oldval then (True, newval) else (False, v))"

definition lf_atomic_fetch_add :: "size_t \<Rightarrow> size_t \<Rightarrow> size_t \<times> size_t" where
  "lf_atomic_fetch_add v n = (v, v + n)"

text \<open>
  Modelled from the spec: the counting semaphore (utils/semaphore.c): created with
  a count, released by a number of permits, acquired one permit at a time, and
  destroyed. Destroying reports 0 on success; a semaphore that is not live cannot
  be destroyed.
\<close>

definition lf_semaphore_new :: "size_t \<Rightarrow> sched \<Rightarrow> sched" where
  "lf_semaphore_new n s =
     s\<lparr>lf_sched_semaphore := Some n, trace := trace s @ [SemaphoreNew n]\<rparr>"

definition lf_semaphore_release :: "size_t \<Rightarrow> sched \<Rightarrow> error + sched" where
  "lf_semaphore_release n s =
     (case lf_sched_semaphore s of
        None \<Rightarrow> Inl InvalidPointer
      | Some c \<Rightarrow>
          Inr (s\<lparr>lf_sched_semaphore := Some (c + n),
                 trace := trace s @ [SemaphoreRelease n]\<rparr>))"

definition lf_semaphore_destroy :: "sched \<Rightarrow> int \<times> sched" where
  "lf_semaphore_destroy s =
     (case lf_sched_semaphore s of
        None \<Rightarrow> (1, s)
      | Some c \<Rightarrow>
          (0, s\<lparr>lf_sched_semaphore := None, trace := trace s @ [SemaphoreDestroy]\<rparr>))"

text \<open>
  Modelled from the spec: the priority queue (utils/pqueue.c), used as a black box:
  insert, pop of a minimum-index element, size. A queue is the list of the
  addresses of the reactions it holds; the priority of an element is read from
  the reaction itself (\<open>get_reaction_index\<close>), and \<open>pqueue_pop\<close> returns \<open>NULL\<close> on
  an empty queue.
\<close>

definition pqueue_init :: "sched \<Rightarrow> nat \<times> sched" where
  "pqueue_init s =
     (let q = pqueue_next s
      in (q, s\<lparr>pqueues := (pqueues s)(q \<mapsto> []),
               pqueue_next := Suc q,
               trace := trace s @ [PqueueInit q]\<rparr>))"

definition pqueue_free :: "nat \<Rightarrow> sched \<Rightarrow> error + sched" where
  "pqueue_free q s =
     (case pqueues s q of
        None \<Rightarrow> Inl InvalidPointer
      | Some rs \<Rightarrow>
          Inr (s\<lparr>pqueues := (pqueues s)(q := None), trace := trace s @ [PqueueFree q]\<rparr>))"

definition pqueue_size :: "nat \<Rightarrow> sched \<Rightarrow> error + size_t" where
  "pqueue_size q s =
     (case pqueues s q of
        None \<Rightarrow> Inl InvalidPointer
      | Some rs \<Rightarrow> Inr (of_nat (length rs)))"

definition pqueue_insert :: "nat \<Rightarrow> nat \<Rightarrow> sched \<Rightarrow> error + sched" where
  "pqueue_insert q r s =
     (case pqueues s q of
        None \<Rightarrow> Inl InvalidPointer
      | Some rs \<Rightarrow>
          Inr (s\<lparr>pqueues := (pqueues s)(q \<mapsto> rs @ [r]),
                 trace := trace s @ [PqueueInsert q r]\<rparr>))"

definition get_reaction_index :: "sched \<Rightarrow> nat \<Rightarrow> index_t" where
  "get_reaction_index s r = index (reactions s r)"

definition pqueue_pop :: "nat \<Rightarrow> sched \<Rightarrow> error + (nat option \<times> sched)" where
  "pqueue_pop q s =
     (case pqueues s q of
        None \<Rightarrow> Inl InvalidPointer
      | Some rs \<Rightarrow>
          (if rs = [] then Inr (None, s\<lparr>trace := trace s @ [PqueuePop q None]\<rparr>)
           else
             let r = arg_min_list (get_reaction_index s) rs
             in Inr (Some r,
                     s\<lparr>pqueues := (pqueues s)(q \<mapsto> remove1 r rs),
                       trace := trace s @ [PqueuePop q (Some r)]\<rparr>)))"

text \<open>
  Reading \<open>vector_of_reaction_qs[i]\<close>: the array has as many slots as the list has
  elements; an index beyond them is an access outside the array.
\<close>

definition vector_at :: "sched \<Rightarrow> size_t \<Rightarrow> error + nat" where
  "vector_at s i =
     (if unat i < length (vector_of_reaction_qs s)
      then Inr (vector_of_reaction_qs s ! unat i)
      else Inl OutOfBounds)"

section \<open>Scheduler private API\<close>

text \<open>\<open>_lf_sched_insert_reaction\<close>, lines 144 to 167.\<close>

definition insert_takes_lock :: "config \<Rightarrow> size_t \<Rightarrow> sched \<Rightarrow> bool" where
  "insert_takes_lock cfg reaction_level s =
     (FEDERATED cfg \<and> reaction_level = lf_sched_next_reaction_level s - 1)"

definition lf_sched_insert_reaction :: "config \<Rightarrow> nat \<Rightarrow> sched \<Rightarrow> error + sched" where
  "lf_sched_insert_reaction cfg reaction s =
     (let reaction_level = LEVEL cfg (index (reactions s reaction));
          locked = insert_takes_lock cfg reaction_level s;
          s1 = (if locked then lf_mutex_lock executing_q_mutex s else s)
      in case vector_at s1 reaction_level of
           Inl e \<Rightarrow> Inl e
         | Inr q \<Rightarrow>
             (case pqueue_insert q reaction s1 of
                Inl e \<Rightarrow> Inl e
              | Inr s2 \<Rightarrow>
                  Inr (if locked then lf_mutex_unlock executing_q_mutex s2 else s2)))"

section \<open>Scheduler worker API\<close>

definition set_status :: "nat \<Rightarrow> reaction_status_t \<Rightarrow> sched \<Rightarrow> sched" where
  "set_status r v s = s\<lparr>reactions := (reactions s)(r := (reactions s r)\<lparr>status := v\<rparr>)\<rparr>"

text \<open>\<open>lf_sched_done_with_reaction\<close>, lines 406 to 412.\<close>

definition lf_sched_done_with_reaction :: "size_t \<Rightarrow> nat option \<Rightarrow> sched \<Rightarrow> error + sched" where
  "lf_sched_done_with_reaction worker_number done_reaction s =
     (case done_reaction of
        None \<Rightarrow> Inl InvalidPointer
      | Some r \<Rightarrow>
          (let (swapped, v) = lf_bool_compare_and_swap (status (reactions s r)) queued inactive
           in if \<not> swapped then Inl (ErrorPrintAndExit ''Unexpected reaction status'')
              else Inr (set_status r v s)))"

text \<open>\<open>lf_sched_trigger_reaction\<close>, lines 431 to 442.\<close>

definition lf_sched_trigger_reaction :: "config \<Rightarrow> nat option \<Rightarrow> c_int \<Rightarrow> sched \<Rightarrow> error + sched" where
  "lf_sched_trigger_reaction cfg reaction worker_number s =
     (case reaction of
        None \<Rightarrow> Inr s
      | Some r \<Rightarrow>
          (let (swapped, v) = lf_bool_compare_and_swap (status (reactions s r)) inactive queued
           in if swapped then lf_sched_insert_reaction cfg r (set_status r v s)
              else Inr s))"


section \<open>Level advancing, tag advancing and notification\<close>

text \<open>
  \<open>_lf_sched_distribute_ready_reactions_locked\<close>, lines 176 to 187. The function
  is declared to return \<open>int\<close>: the \<open>size_t\<close> count is converted on return.
\<close>

function lf_sched_distribute_ready_reactions_locked :: "config \<Rightarrow> sched \<Rightarrow> error + (c_int \<times> sched)" where
  "lf_sched_distribute_ready_reactions_locked cfg s =
     (if lf_sched_next_reaction_level s \<le> max_level cfg then
        (case vector_at s (lf_sched_next_reaction_level s) of
           Inl e \<Rightarrow> Inl e
         | Inr q \<Rightarrow>
             (let s1 = s\<lparr>executing_q := q\<rparr>
              in case pqueue_size (executing_q s1) s1 of
                   Inl e \<Rightarrow> Inl e
                 | Inr reactions_to_execute \<Rightarrow>
                     (if reactions_to_execute \<noteq> 0 then
                        Inr (ucast reactions_to_execute,
                             s1\<lparr>lf_sched_next_reaction_level :=
                                   lf_sched_next_reaction_level s1 + 1\<rparr>)
                      else
                        lf_sched_distribute_ready_reactions_locked cfg
                          (s1\<lparr>lf_sched_next_reaction_level :=
                                lf_sched_next_reaction_level s1 + 1\<rparr>))))
      else Inr (0, s))"
  by pat_completeness auto
termination
proof (relation "measure (\<lambda>(cfg, s). 2 ^ 32 - unat (lf_sched_next_reaction_level s))")
  show "wf (measure (\<lambda>(cfg, s). 2 ^ 32 - unat (lf_sched_next_reaction_level s)))"
    by simp
next
  fix cfg :: config and s :: sched and q s1 and k :: size_t
  assume le: "lf_sched_next_reaction_level s \<le> max_level cfg"
    and s1: "s1 = s\<lparr>executing_q := q\<rparr>"
  have "unat (MAX_REACTION_LEVEL cfg) < 2 ^ 32"
    using unsigned_less [of "MAX_REACTION_LEVEL cfg", where 'a = nat] by simp
  then have "unat (max_level cfg) < 2 ^ 32"
    by (simp add: max_level_def unsigned_ucast_eq take_bit_nat_eq_self)
  with le have lt: "unat (lf_sched_next_reaction_level s) < 2 ^ 32"
    by (simp add: word_le_nat_alt)
  then have "unat (lf_sched_next_reaction_level s + 1) = unat (lf_sched_next_reaction_level s) + 1"
    by (simp add: unat_word_ariths)
  with lt s1
  show "((cfg, s1\<lparr>lf_sched_next_reaction_level := lf_sched_next_reaction_level s1 + 1\<rparr>), (cfg, s))
      \<in> measure (\<lambda>(cfg, s). 2 ^ 32 - unat (lf_sched_next_reaction_level s))"
    by simp
qed

text \<open>
  Modelled from the spec: \<open>logical_tag_complete\<close>, the external hook of the
  federated coordinator; here it only leaves its call in the trace.
\<close>

definition logical_tag_complete :: "tag_t \<Rightarrow> sched \<Rightarrow> sched" where
  "logical_tag_complete tag_to_send s = s\<lparr>trace := trace s @ [LogicalTagComplete tag_to_send]\<rparr>"

text \<open>\<open>_lf_sched_should_stop_locked\<close>, lines 193 to 205.\<close>

definition lf_sched_should_stop_locked :: "sched \<Rightarrow> bool \<times> sched" where
  "lf_sched_should_stop_locked s =
     (if lf_logical_tag_completed s then
        (let s1 = logical_tag_complete (current_tag s) s
         in if compare_tags (current_tag s1) (stop_tag s1) \<ge> 0 then (True, s1)
            else (False, s1))
      else (False, s))"

text \<open>
  Modelled from the spec: \<open>_lf_next_locked\<close>, the external step that advances the
  tag and fills the reaction queues (only declared in the file). What the step
  decides is an input, \<open>next_step\<close>: the new values of the tags and the reactions
  whose triggers fired, each of which is handed to \<open>lf_sched_trigger_reaction\<close>
  with worker number -1.
\<close>

record next_step =
  next_current_tag :: tag_t
  next_stop_tag :: tag_t
  next_reactions :: "nat option list"

fun trigger_all :: "config \<Rightarrow> nat option list \<Rightarrow> sched \<Rightarrow> error + sched" where
  "trigger_all cfg [] s = Inr s"
| "trigger_all cfg (r # rs) s =
     (case lf_sched_trigger_reaction cfg r (- 1) s of
        Inl e \<Rightarrow> Inl e
      | Inr s1 \<Rightarrow> trigger_all cfg rs s1)"

definition lf_next_locked :: "config \<Rightarrow> (sched \<Rightarrow> next_step) \<Rightarrow> sched \<Rightarrow> error + sched" where
  "lf_next_locked cfg env s =
     trigger_all cfg (next_reactions (env s))
       (s\<lparr>current_tag := next_current_tag (env s),
          stop_tag := next_stop_tag (env s),
          trace := trace s @ [NextLocked]\<rparr>)"

text \<open>\<open>_lf_sched_advance_tag_locked\<close>, lines 215 to 233.\<close>

definition lf_sched_advance_tag_locked :: "config \<Rightarrow> (sched \<Rightarrow> next_step) \<Rightarrow> sched \<Rightarrow> error + (bool \<times> sched)" where
  "lf_sched_advance_tag_locked cfg env s =
     (let (stop, s1) = lf_sched_should_stop_locked s
      in if stop then Inr (True, s1)
         else
           (let s2 = s1\<lparr>lf_logical_tag_completed := True\<rparr>
            in case lf_next_locked cfg env s2 of
                 Inl e \<Rightarrow> Inl e
               | Inr s3 \<Rightarrow> Inr (False, s3)))"

text \<open>\<open>_lf_sched_notify_workers\<close>, lines 240 to 249; \<open>MIN\<close> is the usual macro.\<close>

definition MIN_size_t :: "size_t \<Rightarrow> size_t \<Rightarrow> size_t" where
  "MIN_size_t a b = (if a < b then a else b)"

definition lf_sched_notify_workers :: "sched \<Rightarrow> error + sched" where
  "lf_sched_notify_workers s =
     (case pqueue_size (executing_q s) s of
        Inl e \<Rightarrow> Inl e
      | Inr k \<Rightarrow>
          (let workers_to_be_awaken = MIN_size_t (lf_sched_number_of_idle_workers s) k;
               s1 = s\<lparr>lf_sched_number_of_idle_workers :=
                        lf_sched_number_of_idle_workers s - workers_to_be_awaken\<rparr>
           in if workers_to_be_awaken > 1
              then lf_semaphore_release (workers_to_be_awaken - 1) s1
              else Inr s1))"

text \<open>\<open>_lf_sched_signal_stop\<close>, lines 255 to 258.\<close>

definition lf_sched_signal_stop :: "sched \<Rightarrow> error + sched" where
  "lf_sched_signal_stop s =
     lf_semaphore_release (lf_sched_number_of_workers s - 1) (s\<lparr>lf_sched_should_stop := True\<rparr>)"

section \<open>Init and destroy\<close>

text \<open>
  The state before \<open>lf_sched_init\<close>: the static initialisers of the globals. The
  array has \<open>MAX_REACTION_LEVEL + 1\<close> null pointers, the reactions and the tags
  belong to the rest of the runtime, which has initialised the global \<open>mutex\<close>.
\<close>

definition static_state :: "config \<Rightarrow> (nat \<Rightarrow> reaction_t) \<Rightarrow> tag_t \<Rightarrow> tag_t \<Rightarrow> sched" where
  "static_state cfg rs now stop =
     \<lparr>reactions = rs,
      pqueues = (\<lambda>a. None),
      pqueue_next = 1,
      mutex = unlocked,
      current_tag = now,
      stop_tag = stop,
      lf_sched_semaphore = None,
      lf_sched_should_stop = False,
      vector_of_reaction_qs = replicate (Suc (unat (max_level cfg))) 0,
      executing_q = 0,
      lf_sched_number_of_workers = 1,
      lf_sched_number_of_idle_workers = 0,
      lf_logical_tag_completed = False,
      lf_sched_executing_q_mutex = uninitialized,
      lf_sched_next_reaction_level = 0,
      trace = []\<rparr>"

text \<open>\<open>lf_sched_init\<close>, lines 327 to 344; the \<open>for\<close> loop of lines 333 to 336 first.\<close>

function lf_sched_init_queues :: "config \<Rightarrow> size_t \<Rightarrow> sched \<Rightarrow> sched" where
  "lf_sched_init_queues cfg i s =
     (if i \<le> max_level cfg then
        (let (q, s1) = pqueue_init s
         in lf_sched_init_queues cfg (i + 1)
              (s1\<lparr>vector_of_reaction_qs := (vector_of_reaction_qs s1)[unat i := q]\<rparr>))
      else s)"
  by pat_completeness auto
termination
proof (relation "measure (\<lambda>(cfg, i, s). 2 ^ 32 - unat i)")
  show "wf (measure (\<lambda>(cfg, i, s). 2 ^ 32 - unat i))"
    by simp
next
  fix cfg :: config and i :: size_t and s :: sched and x q s1
  assume le: "i \<le> max_level cfg"
  have "unat (MAX_REACTION_LEVEL cfg) < 2 ^ 32"
    using unsigned_less [of "MAX_REACTION_LEVEL cfg", where 'a = nat] by simp
  then have "unat (max_level cfg) < 2 ^ 32"
    by (simp add: max_level_def unsigned_ucast_eq take_bit_nat_eq_self)
  with le have lt: "unat i < 2 ^ 32"
    by (simp add: word_le_nat_alt)
  then have "unat (i + 1) = unat i + 1"
    by (simp add: unat_word_ariths)
  with lt
  show "((cfg, i + 1, s1\<lparr>vector_of_reaction_qs := (vector_of_reaction_qs s1)[unat i := q]\<rparr>), (cfg, i, s))
      \<in> measure (\<lambda>(cfg, i, s). 2 ^ 32 - unat i)"
    by simp
qed

definition lf_sched_init :: "config \<Rightarrow> size_t \<Rightarrow> sched \<Rightarrow> sched" where
  "lf_sched_init cfg number_of_workers s =
     (let s1 = lf_semaphore_new 0 s;
          s2 = s1\<lparr>lf_sched_number_of_workers := number_of_workers\<rparr>;
          s3 = lf_sched_init_queues cfg 0 s2;
          s4 = s3\<lparr>executing_q := vector_of_reaction_qs s3 ! 0\<rparr>;
          s5 = s4\<lparr>lf_sched_should_stop := False\<rparr>
      in lf_mutex_init executing_q_mutex s5)"

text \<open>
  \<open>lf_sched_free\<close>, lines 351 to 360. The loop over the levels is commented out
  in the source; what runs is the free of \<open>executing_q\<close> and the destruction of
  the semaphore.
\<close>

definition lf_sched_free :: "sched \<Rightarrow> error + sched" where
  "lf_sched_free s =
     (case pqueue_free (executing_q s) s of
        Inl e \<Rightarrow> Inl e
      | Inr s1 \<Rightarrow>
          (let (rc, s2) = lf_semaphore_destroy s1
           in if rc \<noteq> 0
              then Inl (ErrorPrintAndExit ''Scheduler: Could not destroy my semaphore.'')
              else Inr s2))"

declare lf_sched_distribute_ready_reactions_locked.simps [simp del]
declare lf_sched_init_queues.simps [simp del]

section \<open>Well-formed states and the calls of the tag machinery\<close>

text \<open>
  The array has its \<open>MAX_REACTION_LEVEL + 1\<close> slots and every slot points to a
  live queue: what \<open>lf_sched_init\<close> establishes.
\<close>

definition slots_live :: "config \<Rightarrow> sched \<Rightarrow> bool" where
  "slots_live cfg s =
     (length (vector_of_reaction_qs s) = Suc (unat (max_level cfg))
      \<and> list_all (\<lambda>q. pqueues s q \<noteq> None) (vector_of_reaction_qs s))"

text \<open>The reactions of a list have levels inside the array.\<close>

definition levels_in_range :: "config \<Rightarrow> sched \<Rightarrow> nat option list \<Rightarrow> bool" where
  "levels_in_range cfg s rs =
     list_all (\<lambda>r. case r of None \<Rightarrow> True
                     | Some a \<Rightarrow> LEVEL cfg (index (reactions s a)) \<le> max_level cfg) rs"

text \<open>The calls of \<open>logical_tag_complete\<close> and \<open>_lf_next_locked\<close> in a trace.\<close>

fun is_tag_event :: "event \<Rightarrow> bool" where
  "is_tag_event (LogicalTagComplete t) = True"
| "is_tag_event NextLocked = True"
| "is_tag_event e = False"

definition tag_events :: "event list \<Rightarrow> event list" where
  "tag_events evs = filter is_tag_event evs"

text \<open>The operations on a mutex in a trace.\<close>

fun is_mutex_event :: "event \<Rightarrow> bool" where
  "is_mutex_event (MutexInit m) = True"
| "is_mutex_event (MutexLock m) = True"
| "is_mutex_event (MutexUnlock m) = True"
| "is_mutex_event e = False"

section \<open>Concrete states\<close>

text \<open>
  Two levels, the level in the 16 high bits of the index; the reaction at
  address 2 has level 1, every other reaction level 0; all are inactive.
\<close>

definition example_cfg :: config where
  "example_cfg = \<lparr>MAX_REACTION_LEVEL = 1, FEDERATED = True, LEVEL = (\<lambda>i. drop_bit 48 i)\<rparr>"

definition example_cfg_plain :: config where
  "example_cfg_plain = example_cfg\<lparr>FEDERATED := False\<rparr>"

definition example_reactions :: "nat \<Rightarrow> reaction_t" where
  "example_reactions a =
     \<lparr>index = (if a = 2 then push_bit 48 1 else 0), status = inactive, name = []\<rparr>"

definition tag0 :: tag_t where
  "tag0 = \<lparr>time = 0, microstep = 0\<rparr>"

definition tag1 :: tag_t where
  "tag1 = \<lparr>time = 1, microstep = 0\<rparr>"

text \<open>The state after \<open>lf_sched_init(2)\<close>.\<close>

definition example_init :: sched where
  "example_init =
     lf_sched_init example_cfg 2 (static_state example_cfg example_reactions tag0 tag1)"

text \<open>An external step to \<open>tag1\<close> that triggers the reaction at address 1.\<close>

definition example_env :: "sched \<Rightarrow> next_step" where
  "example_env s =
     \<lparr>next_current_tag = tag1, next_stop_tag = tag1, next_reactions = [Some 1]\<rparr>"

text \<open>
  The state after \<open>lf_sched_init(2)\<close>, a trigger of the reaction at address 1 and
  one call of \<open>_lf_sched_distribute_ready_reactions_locked\<close>: level 0 is being
  drained.
\<close>

definition example_triggered :: sched where
  "example_triggered =
     projr (lf_sched_trigger_reaction example_cfg_plain (Some 1) (- 1) example_init)"

definition example_draining :: sched where
  "example_draining =
     snd (projr (lf_sched_distribute_ready_reactions_locked example_cfg_plain example_triggered))"

section \<open>The reaction queue array seen by level\<close>

text \<open>The queue of slot \<open>j\<close>, when \<open>j\<close> is a slot of the array and points to a live queue.\<close>

definition slot_queue :: "sched \<Rightarrow> size_t \<Rightarrow> nat list option" where
  "slot_queue s j = (case vector_at s j of Inl e \<Rightarrow> None | Inr q \<Rightarrow> pqueues s q)"

text \<open>The size of every queue of the array fits the \<open>int\<close> the distribution returns.\<close>

definition slots_small :: "sched \<Rightarrow> bool" where
  "slots_small s =
     list_all (\<lambda>q. case pqueues s q of None \<Rightarrow> True | Some rs \<Rightarrow> length rs < 2 ^ 31)
       (vector_of_reaction_qs s)"

text \<open>Slot \<open>j\<close> holds reactions of level \<open>j\<close> only: what the enqueue path maintains.\<close>

definition slots_by_level :: "config \<Rightarrow> sched \<Rightarrow> bool" where
  "slots_by_level cfg s =
     list_all
       (\<lambda>j. case pqueues s (vector_of_reaction_qs s ! j) of
               None \<Rightarrow> True
             | Some rs \<Rightarrow> list_all (\<lambda>r. unat (LEVEL cfg (index (reactions s r))) = j) rs)
       [0 ..< length (vector_of_reaction_qs s)]"

text \<open>
  What a scan by \<open>_lf_sched_distribute_ready_reactions_locked\<close> from state \<open>s\<close>
  that returns \<open>k\<close> in state \<open>s'\<close> has done.
\<close>

definition distribute_post :: "config \<Rightarrow> sched \<Rightarrow> c_int \<Rightarrow> sched \<Rightarrow> bool" where
  "distribute_post cfg s k s' =
     (s' = s\<lparr>executing_q := executing_q s',
             lf_sched_next_reaction_level := lf_sched_next_reaction_level s'\<rparr>
      \<and> (0 <s k \<or> k = 0)
      \<and> (0 <s k \<longrightarrow>
           (\<exists>L rs. lf_sched_next_reaction_level s \<le> L \<and> L \<le> max_level cfg
              \<and> vector_at s L = Inr (executing_q s')
              \<and> pqueues s (executing_q s') = Some rs
              \<and> sint k = int (length rs)
              \<and> lf_sched_next_reaction_level s' = L + 1
              \<and> (\<forall>j. lf_sched_next_reaction_level s \<le> j \<and> j < L \<longrightarrow> slot_queue s j = Some [])
              \<and> (slots_by_level cfg s \<longrightarrow>
                   (\<forall>r \<in> set rs. LEVEL cfg (index (reactions s' r))
                        = lf_sched_next_reaction_level s' - 1))))
      \<and> (k = 0 \<longrightarrow>
           (\<forall>j. lf_sched_next_reaction_level s \<le> j \<and> j \<le> max_level cfg
                \<longrightarrow> slot_queue s j = Some [])
           \<and> lf_sched_next_reaction_level s' = max_level cfg + 1))"

section \<open>The workers as a transition system\<close>

text \<open>
  \<open>lf_sched_get_ready_reaction\<close> (lines 376 to 396), \<open>_lf_sched_wait_for_work\<close>
  (lines 302 to 317) and \<open>_lf_sched_try_advance_tag_and_distribute\<close> (lines 268 to
  291) block on the mutexes and on the semaphore and run in every worker thread at
  once. They are embedded as a transition system: the shared state is \<open>sched\<close>, each
  worker has a program counter naming the statement it executes next, and one
  transition runs one statement of one worker. The calls into the functions above
  are single transitions.
\<close>

text \<open>
  Modelled from the spec: \<open>lf_semaphore_acquire\<close> (utils/semaphore.c). It takes one
  permit; with no permit the caller waits, which is \<open>None\<close> here: the transition is
  not enabled.
\<close>

definition lf_semaphore_acquire :: "sched \<Rightarrow> sched option" where
  "lf_semaphore_acquire s =
     (case lf_sched_semaphore s of
        None \<Rightarrow> None
      | Some c \<Rightarrow>
          (if c = 0 then None
           else Some (s\<lparr>lf_sched_semaphore := Some (c - 1),
                        trace := trace s @ [SemaphoreAcquire]\<rparr>)))"

text \<open>
  The program counters. In \<open>lf_sched_get_ready_reaction\<close>: \<open>at_head\<close> is the test of
  line 378, \<open>at_lock\<close> line 379, \<open>at_pop\<close> line 380, \<open>at_unlock r\<close> line 381 with \<open>r\<close> the
  value of \<open>reaction_to_return\<close>. In \<open>_lf_sched_wait_for_work\<close>: \<open>at_fetch_add\<close> is
  line 305, \<open>at_acquire\<close> line 314. In \<open>_lf_sched_try_advance_tag_and_distribute\<close>:
  \<open>at_advance\<close> is the test of line 271, \<open>at_lock_global\<close> line 273, \<open>at_advance_tag\<close>
  line 277, \<open>at_signal_stop\<close> line 279, \<open>at_unlock_stop\<close> line 280, \<open>at_unlock_global\<close>
  line 283, \<open>at_distribute\<close> line 286, \<open>at_notify\<close> line 287. \<open>returned r\<close>:
  \<open>lf_sched_get_ready_reaction\<close> has returned \<open>r\<close> to the worker.
\<close>

datatype pc =
    at_head
  | at_lock
  | at_pop
  | at_unlock "nat option"
  | at_fetch_add
  | at_acquire
  | at_advance
  | at_lock_global
  | at_advance_tag
  | at_signal_stop
  | at_unlock_stop
  | at_unlock_global
  | at_distribute
  | at_notify
  | returned "nat option"

text \<open>
  A trigger has to wait for the executing-queue mutex when it is going to take it
  (lines 152 to 159) and another thread holds it.
\<close>

definition trigger_waits :: "config \<Rightarrow> nat option \<Rightarrow> sched \<Rightarrow> bool" where
  "trigger_waits cfg reaction s =
     (case reaction of
        None \<Rightarrow> False
      | Some r \<Rightarrow>
          status (reactions s r) = inactive
          \<and> insert_takes_lock cfg (LEVEL cfg (index (reactions s r))) s
          \<and> lf_sched_executing_q_mutex s = locked)"

text \<open>
  One statement of worker \<open>i\<close>, from shared state and program counter to shared state
  and program counter. The last two rules are the caller.
  Modelled from the spec: the worker routine (reactor\_threaded.c): a worker that
  was given a reaction runs its body, which may trigger reactions, reports it with
  \<open>lf_sched_done_with_reaction\<close> and asks for the next one; a worker that was given
  \<open>NULL\<close> exits.
\<close>

inductive worker_step :: "config \<Rightarrow> nat \<Rightarrow> sched \<times> pc \<Rightarrow> sched \<times> pc \<Rightarrow> bool" where
  head_stop:
    "lf_sched_should_stop s \<Longrightarrow>
     worker_step cfg i (s, at_head) (s, returned None)"
| head_continue:
    "\<not> lf_sched_should_stop s \<Longrightarrow>
     worker_step cfg i (s, at_head) (s, at_lock)"
| lock_executing_q:
    "lf_sched_executing_q_mutex s = unlocked \<Longrightarrow>
     worker_step cfg i (s, at_lock) (lf_mutex_lock executing_q_mutex s, at_pop)"
| pop:
    "pqueue_pop (executing_q s) s = Inr (r, s') \<Longrightarrow>
     worker_step cfg i (s, at_pop) (s', at_unlock r)"
| unlock_executing_q:
    "worker_step cfg i (s, at_unlock r)
       (lf_mutex_unlock executing_q_mutex s, if r \<noteq> None then returned r else at_fetch_add)"
| fetch_add:
    "lf_atomic_fetch_add (lf_sched_number_of_idle_workers s) 1 = (prev, v) \<Longrightarrow>
     worker_step cfg i (s, at_fetch_add)
       (s\<lparr>lf_sched_number_of_idle_workers := v\<rparr>,
        if prev = lf_sched_number_of_workers s - 1 then at_advance else at_acquire)"
| acquire:
    "lf_semaphore_acquire s = Some s' \<Longrightarrow>
     worker_step cfg i (s, at_acquire) (s', at_head)"
| advance_reset:
    "lf_sched_next_reaction_level s = max_level cfg + 1 \<Longrightarrow>
     worker_step cfg i (s, at_advance) (s\<lparr>lf_sched_next_reaction_level := 0\<rparr>, at_lock_global)"
| advance_skip:
    "lf_sched_next_reaction_level s \<noteq> max_level cfg + 1 \<Longrightarrow>
     worker_step cfg i (s, at_advance) (s, at_distribute)"
| lock_global:
    "mutex s = unlocked \<Longrightarrow>
     worker_step cfg i (s, at_lock_global) (lf_mutex_lock global_mutex s, at_advance_tag)"
| advance_tag:
    "lf_sched_advance_tag_locked cfg env s = Inr (stop, s') \<Longrightarrow>
     worker_step cfg i (s, at_advance_tag)
       (s', if stop then at_signal_stop else at_unlock_global)"
| signal_stop:
    "lf_sched_signal_stop s = Inr s' \<Longrightarrow>
     worker_step cfg i (s, at_signal_stop) (s', at_unlock_stop)"
| unlock_stop:
    "worker_step cfg i (s, at_unlock_stop) (lf_mutex_unlock global_mutex s, at_head)"
| unlock_global:
    "worker_step cfg i (s, at_unlock_global) (lf_mutex_unlock global_mutex s, at_distribute)"
| distribute:
    "lf_sched_distribute_ready_reactions_locked cfg s = Inr (k, s') \<Longrightarrow>
     worker_step cfg i (s, at_distribute) (s', if 0 <s k then at_notify else at_advance)"
| notify:
    "lf_sched_notify_workers s = Inr s' \<Longrightarrow>
     worker_step cfg i (s, at_notify) (s', at_head)"
| body_trigger:
    "\<not> trigger_waits cfg r s \<Longrightarrow>
     lf_sched_trigger_reaction cfg r (of_nat i) s = Inr s' \<Longrightarrow>
     worker_step cfg i (s, returned (Some a)) (s', returned (Some a))"
| body_done:
    "lf_sched_done_with_reaction (of_nat i) (Some a) s = Inr s' \<Longrightarrow>
     worker_step cfg i (s, returned (Some a)) (s', at_head)"

text \<open>
  The system: the shared state and the program counter of every worker. The
  workers are the numbers below \<open>_lf_sched_number_of_workers\<close>.
\<close>

record system =
  shared :: sched
  pcs :: "nat \<Rightarrow> pc"

inductive system_step :: "config \<Rightarrow> system \<Rightarrow> system \<Rightarrow> bool" where
  "i < unat (lf_sched_number_of_workers (shared c)) \<Longrightarrow>
   worker_step cfg i (shared c, pcs c i) (s', p') \<Longrightarrow>
   system_step cfg c \<lparr>shared = s', pcs = (pcs c)(i := p')\<rparr>"

text \<open>
  The reachable systems. At the start \<open>lf_sched_init\<close> has run on the static state,
  the runtime has triggered the reactions of the first tag (worker number -1), and
  every worker is about to call \<open>lf_sched_get_ready_reaction\<close>.
\<close>

inductive reachable :: "config \<Rightarrow> system \<Rightarrow> bool" where
  start:
    "trigger_all cfg rs (lf_sched_init cfg n (static_state cfg mem now stop)) = Inr s \<Longrightarrow>
     reachable cfg \<lparr>shared = s, pcs = (\<lambda>i. at_head)\<rparr>"
| step:
    "reachable cfg c \<Longrightarrow> system_step cfg c c' \<Longrightarrow> reachable cfg c'"

text \<open>
  The workers the idle count stands for: the ones waiting on the semaphore and the
  one elected to advance, until it has notified the others or signalled the stop.
\<close>

fun advancing :: "pc \<Rightarrow> bool" where
  "advancing at_advance = True"
| "advancing at_lock_global = True"
| "advancing at_advance_tag = True"
| "advancing at_signal_stop = True"
| "advancing at_unlock_global = True"
| "advancing at_distribute = True"
| "advancing at_notify = True"
| "advancing p = False"

definition counted_idle :: "pc \<Rightarrow> bool" where
  "counted_idle p = (advancing p \<or> p = at_acquire)"

definition idle_workers :: "system \<Rightarrow> nat set" where
  "idle_workers c =
     {i. i < unat (lf_sched_number_of_workers (shared c)) \<and> counted_idle (pcs c i)}"

text \<open>The workers between the lock and the unlock of the executing-queue mutex.\<close>

fun in_critical :: "pc \<Rightarrow> bool" where
  "in_critical at_pop = True"
| "in_critical (at_unlock r) = True"
| "in_critical p = False"

text \<open>The workers a stop has been signalled to: waiting, leaving or gone.\<close>

fun stopping :: "pc \<Rightarrow> bool" where
  "stopping at_acquire = True"
| "stopping at_head = True"
| "stopping at_unlock_stop = True"
| "stopping (returned None) = True"
| "stopping p = False"

text \<open>
  The accounting the scheduler keeps, as a predicate on systems. Until a stop is
  signalled, the idle count plus the permits of the semaphore is the number of
  workers waiting or advancing. While a worker advances, it is the only one, and
  the idle count is the number of workers. Once a stop is signalled the idle count
  stays at the number of workers and every worker is waiting, leaving or gone. The
  worker about to notify sees a non-empty executing queue. The executing-queue
  mutex is locked exactly while a worker is between its lock and its unlock, and
  there is at most one such worker.
\<close>

definition same_control :: "sched \<Rightarrow> sched \<Rightarrow> bool" where
  "same_control s s' =
     (lf_sched_number_of_workers s' = lf_sched_number_of_workers s
      \<and> lf_sched_number_of_idle_workers s' = lf_sched_number_of_idle_workers s
      \<and> lf_sched_semaphore s' = lf_sched_semaphore s
      \<and> lf_sched_should_stop s' = lf_sched_should_stop s)"

definition accounting :: "system \<Rightarrow> bool" where
  "accounting c =
     ((\<exists>permits. lf_sched_semaphore (shared c) = Some permits
         \<and> (\<not> lf_sched_should_stop (shared c) \<longrightarrow>
              unat (lf_sched_number_of_idle_workers (shared c)) + unat permits
                = card (idle_workers c)))
      \<and> (\<forall>i < unat (lf_sched_number_of_workers (shared c)).
            advancing (pcs c i) \<longrightarrow>
              lf_sched_number_of_idle_workers (shared c) = lf_sched_number_of_workers (shared c)
              \<and> \<not> lf_sched_should_stop (shared c)
              \<and> (\<forall>j < unat (lf_sched_number_of_workers (shared c)).
                    advancing (pcs c j) \<longrightarrow> j = i))
      \<and> (lf_sched_should_stop (shared c) \<longrightarrow>
            lf_sched_number_of_idle_workers (shared c) = lf_sched_number_of_workers (shared c)
            \<and> (\<forall>i < unat (lf_sched_number_of_workers (shared c)). stopping (pcs c i)))
      \<and> (\<forall>i < unat (lf_sched_number_of_workers (shared c)).
            pcs c i = at_notify \<longrightarrow>
              (\<exists>k. pqueue_size (executing_q (shared c)) (shared c) = Inr k \<and> k \<noteq> 0))
      \<and> ((lf_sched_executing_q_mutex (shared c) = locked)
            = (\<exists>i < unat (lf_sched_number_of_workers (shared c)). in_critical (pcs c i)))
      \<and> (\<forall>i < unat (lf_sched_number_of_workers (shared c)).
            in_critical (pcs c i) \<longrightarrow>
              (\<forall>j < unat (lf_sched_number_of_workers (shared c)).
                    in_critical (pcs c j) \<longrightarrow> j = i)))"

text \<open>
  Two reachable systems: the start after \<open>lf_sched_init(2)\<close> and a trigger of the
  reaction at address 1, and the system two statements later, when worker 0 has
  passed the test of line 378 and locked the executing-queue mutex.
\<close>

definition example_start :: system where
  "example_start = \<lparr>shared = example_triggered, pcs = (\<lambda>i. at_head)\<rparr>"

definition example_locked :: system where
  "example_locked =
     \<lparr>shared = lf_mutex_lock executing_q_mutex example_triggered,
      pcs = (\<lambda>i. at_head)(0 := at_pop)\<rparr>"

section \<open>Facts about the concrete states\<close>

lemma max_level_example: "max_level example_cfg = 1"
  by (simp add: max_level_def example_cfg_def)

lemma max_level_example_plain: "max_level example_cfg_plain = 1"
  by (simp add: max_level_def example_cfg_plain_def example_cfg_def)

lemma example_init_eq:
  "example_init =
     \<lparr>reactions = example_reactions,
      pqueues = ((\<lambda>a. None)(1 \<mapsto> [], 2 \<mapsto> [])),
      pqueue_next = 3,
      mutex = unlocked,
      current_tag = tag0,
      stop_tag = tag1,
      lf_sched_semaphore = Some 0,
      lf_sched_should_stop = False,
      vector_of_reaction_qs = [1, 2],
      executing_q = 1,
      lf_sched_number_of_workers = 2,
      lf_sched_number_of_idle_workers = 0,
      lf_logical_tag_completed = False,
      lf_sched_executing_q_mutex = unlocked,
      lf_sched_next_reaction_level = 0,
      trace = [SemaphoreNew 0, PqueueInit 1, PqueueInit 2, MutexInit executing_q_mutex]\<rparr>"
  by (simp add: example_init_def lf_sched_init_def static_state_def lf_semaphore_new_def
      lf_sched_init_queues.simps [of _ 0] lf_sched_init_queues.simps [of _ 1]
      lf_sched_init_queues.simps [of _ 2] word_le_nat_alt
      max_level_example pqueue_init_def lf_mutex_init_def set_mutex_def Let_def)
     (simp add: numeral_2_eq_2 numeral_3_eq_3)

section \<open>Facts about the enqueue path\<close>

lemma vector_at_lock [simp]:
  "vector_at (lf_mutex_lock m s) i = vector_at s i"
  by (cases m) (simp_all add: vector_at_def lf_mutex_lock_def set_mutex_def)

lemma vector_at_set_status [simp]:
  "vector_at (set_status r v s) i = vector_at s i"
  by (simp add: vector_at_def set_status_def)

lemma insert_reaction_result:
  assumes "vector_at s (LEVEL cfg (index (reactions s r))) = Inr q"
      and "pqueues s q = Some rs"
  shows "lf_sched_insert_reaction cfg r s =
     Inr (if insert_takes_lock cfg (LEVEL cfg (index (reactions s r))) s
          then s\<lparr>pqueues := (pqueues s)(q \<mapsto> rs @ [r]),
                 lf_sched_executing_q_mutex := unlocked,
                 trace := trace s @ [MutexLock executing_q_mutex, PqueueInsert q r,
                                     MutexUnlock executing_q_mutex]\<rparr>
          else s\<lparr>pqueues := (pqueues s)(q \<mapsto> rs @ [r]),
                 trace := trace s @ [PqueueInsert q r]\<rparr>)"
  using assms
  by (simp add: lf_sched_insert_reaction_def Let_def pqueue_insert_def lf_mutex_lock_def
      lf_mutex_unlock_def set_mutex_def vector_at_def split: if_splits)

lemma trigger_inactive:
  assumes "status (reactions s r) = inactive"
  shows "lf_sched_trigger_reaction cfg (Some r) w s =
           lf_sched_insert_reaction cfg r (set_status r queued s)"
  using assms by (simp add: lf_sched_trigger_reaction_def lf_bool_compare_and_swap_def)

lemma trigger_not_inactive:
  assumes "status (reactions s r) \<noteq> inactive"
  shows "lf_sched_trigger_reaction cfg (Some r) w s = Inr s"
  using assms by (simp add: lf_sched_trigger_reaction_def lf_bool_compare_and_swap_def)

lemma insert_reaction_status:
  assumes "lf_sched_insert_reaction cfg r s = Inr s'"
  shows "reactions s' = reactions s"
  using assms
  by (auto simp: lf_sched_insert_reaction_def Let_def pqueue_insert_def lf_mutex_lock_def
      lf_mutex_unlock_def set_mutex_def vector_at_def split: if_splits sum.splits option.splits)

lemma trigger_inactive_result:
  assumes inact: "status (reactions s r) = inactive"
      and slot: "vector_at s (LEVEL cfg (index (reactions s r))) = Inr q"
      and live: "pqueues s q = Some rs"
  shows "lf_sched_trigger_reaction cfg (Some r) w s =
     Inr (if insert_takes_lock cfg (LEVEL cfg (index (reactions s r))) s
          then (set_status r queued s)
                \<lparr>pqueues := (pqueues s)(q \<mapsto> rs @ [r]),
                 lf_sched_executing_q_mutex := unlocked,
                 trace := trace s @ [MutexLock executing_q_mutex, PqueueInsert q r,
                                     MutexUnlock executing_q_mutex]\<rparr>
          else (set_status r queued s)
                \<lparr>pqueues := (pqueues s)(q \<mapsto> rs @ [r]),
                 trace := trace s @ [PqueueInsert q r]\<rparr>)"
proof -
  let ?s0 = "set_status r queued s"
  have lev: "LEVEL cfg (index (reactions ?s0 r)) = LEVEL cfg (index (reactions s r))"
    by (simp add: set_status_def)
  have "vector_at ?s0 (LEVEL cfg (index (reactions ?s0 r))) = Inr q"
    using slot by (simp add: lev)
  moreover have "pqueues ?s0 q = Some rs"
    using live by (simp add: set_status_def)
  ultimately have "lf_sched_insert_reaction cfg r ?s0 =
     Inr (if insert_takes_lock cfg (LEVEL cfg (index (reactions ?s0 r))) ?s0
          then ?s0\<lparr>pqueues := (pqueues ?s0)(q \<mapsto> rs @ [r]),
                 lf_sched_executing_q_mutex := unlocked,
                 trace := trace ?s0 @ [MutexLock executing_q_mutex, PqueueInsert q r,
                                     MutexUnlock executing_q_mutex]\<rparr>
          else ?s0\<lparr>pqueues := (pqueues ?s0)(q \<mapsto> rs @ [r]),
                 trace := trace ?s0 @ [PqueueInsert q r]\<rparr>)"
    by (rule insert_reaction_result)
  moreover have "insert_takes_lock cfg (LEVEL cfg (index (reactions s r))) ?s0
      = insert_takes_lock cfg (LEVEL cfg (index (reactions s r))) s"
    by (simp add: insert_takes_lock_def set_status_def)
  moreover have "pqueues ?s0 = pqueues s" and "trace ?s0 = trace s"
    by (simp_all add: set_status_def)
  ultimately show ?thesis
    using inact by (simp add: trigger_inactive lev)
qed


lemma trigger_frame:
  assumes "lf_sched_trigger_reaction cfg r w s = Inr s'"
  shows "\<exists>rs' pq' m' ev.
           s' = s\<lparr>reactions := rs', pqueues := pq', lf_sched_executing_q_mutex := m',
                  trace := trace s @ ev\<rparr>
         \<and> (\<forall>a. index (rs' a) = index (reactions s a))
         \<and> (\<forall>q. (pq' q = None) = (pqueues s q = None))
         \<and> tag_events ev = []
         \<and> (m' = lf_sched_executing_q_mutex s \<or> m' = unlocked)"
proof (cases r)
  case None
  with assms have "s' = s"
    by (simp add: lf_sched_trigger_reaction_def)
  then have "s' = s\<lparr>reactions := reactions s, pqueues := pqueues s,
      lf_sched_executing_q_mutex := lf_sched_executing_q_mutex s, trace := trace s @ []\<rparr>"
    by simp
  then show ?thesis
    by (metis (no_types) filter.simps(1) tag_events_def)
next
  case (Some a)
  show ?thesis
  proof (cases "status (reactions s a) = inactive")
    case False
    with assms Some have "s' = s"
      by (simp add: trigger_not_inactive)
    then have "s' = s\<lparr>reactions := reactions s, pqueues := pqueues s,
        lf_sched_executing_q_mutex := lf_sched_executing_q_mutex s, trace := trace s @ []\<rparr>"
      by simp
    then show ?thesis
      by (metis (no_types) filter.simps(1) tag_events_def)
  next
    case True
    with assms Some
    have ins: "lf_sched_insert_reaction cfg a (set_status a queued s) = Inr s'"
      by (simp add: trigger_inactive)
    then obtain q where slot: "vector_at s (LEVEL cfg (index (reactions s a))) = Inr q"
      by (auto simp: lf_sched_insert_reaction_def Let_def set_status_def vector_at_def
          lf_mutex_lock_def set_mutex_def split: sum.splits if_splits)
    with ins obtain qs where live: "pqueues s q = Some qs"
      by (auto simp: lf_sched_insert_reaction_def Let_def set_status_def vector_at_def
          pqueue_insert_def lf_mutex_lock_def set_mutex_def
          split: sum.splits if_splits option.splits)
    note res = trigger_inactive_result [OF True slot live, of w]
    show ?thesis
    proof (cases "insert_takes_lock cfg (LEVEL cfg (index (reactions s a))) s")
      case True
      with res assms Some
      have "s' = s\<lparr>reactions := (reactions s)(a := (reactions s a)\<lparr>status := queued\<rparr>),
                    pqueues := (pqueues s)(q \<mapsto> qs @ [a]),
                    lf_sched_executing_q_mutex := unlocked,
                    trace := trace s @ [MutexLock executing_q_mutex, PqueueInsert q a,
                                     MutexUnlock executing_q_mutex]\<rparr>"
        by (simp add: set_status_def)
      moreover have "\<forall>b. index (((reactions s)(a := (reactions s a)\<lparr>status := queued\<rparr>)) b)
          = index (reactions s b)"
        by simp
      moreover have "\<forall>p. (((pqueues s)(q \<mapsto> qs @ [a])) p = None) = (pqueues s p = None)"
        using live by simp
      moreover have "tag_events [MutexLock executing_q_mutex, PqueueInsert q a,
                                     MutexUnlock executing_q_mutex] = []"
        by (simp add: tag_events_def)
      ultimately show ?thesis
        by blast
    next
      case False
      with res assms Some
      have "s' = s\<lparr>reactions := (reactions s)(a := (reactions s a)\<lparr>status := queued\<rparr>),
                    pqueues := (pqueues s)(q \<mapsto> qs @ [a]),
                    lf_sched_executing_q_mutex := lf_sched_executing_q_mutex s,
                    trace := trace s @ [PqueueInsert q a]\<rparr>"
        by (simp add: set_status_def)
      moreover have "\<forall>b. index (((reactions s)(a := (reactions s a)\<lparr>status := queued\<rparr>)) b)
          = index (reactions s b)"
        by simp
      moreover have "\<forall>p. (((pqueues s)(q \<mapsto> qs @ [a])) p = None) = (pqueues s p = None)"
        using live by simp
      moreover have "tag_events [PqueueInsert q a] = []"
        by (simp add: tag_events_def)
      ultimately show ?thesis
        by blast
    qed
  qed
qed

lemma trigger_all_frame:
  assumes "trigger_all cfg rs s = Inr s'"
  shows "\<exists>rs' pq' m' ev.
           s' = s\<lparr>reactions := rs', pqueues := pq', lf_sched_executing_q_mutex := m',
                  trace := trace s @ ev\<rparr>
         \<and> (\<forall>a. index (rs' a) = index (reactions s a))
         \<and> (\<forall>q. (pq' q = None) = (pqueues s q = None))
         \<and> tag_events ev = []
         \<and> (m' = lf_sched_executing_q_mutex s \<or> m' = unlocked)"
  using assms
proof (induction rs arbitrary: s)
  case Nil
  then have "s' = s\<lparr>reactions := reactions s, pqueues := pqueues s,
      lf_sched_executing_q_mutex := lf_sched_executing_q_mutex s, trace := trace s @ []\<rparr>"
    by simp
  then show ?case
    by (metis (no_types) filter.simps(1) tag_events_def)
next
  case (Cons r rs)
  from Cons.prems obtain s1 where
    one: "lf_sched_trigger_reaction cfg r (- 1) s = Inr s1" and
    rest: "trigger_all cfg rs s1 = Inr s'"
    by (auto split: sum.splits)
  from trigger_frame [OF one] obtain rs1 pq1 m1 ev1 where
    s1: "s1 = s\<lparr>reactions := rs1, pqueues := pq1, lf_sched_executing_q_mutex := m1,
                  trace := trace s @ ev1\<rparr>" and
    f1: "\<forall>a. index (rs1 a) = index (reactions s a)"
        "\<forall>q. (pq1 q = None) = (pqueues s q = None)"
        "tag_events ev1 = []"
        "m1 = lf_sched_executing_q_mutex s \<or> m1 = unlocked"
    by blast
  from Cons.IH [OF rest] obtain rs2 pq2 m2 ev2 where
    s2: "s' = s1\<lparr>reactions := rs2, pqueues := pq2, lf_sched_executing_q_mutex := m2,
                  trace := trace s1 @ ev2\<rparr>" and
    f2: "\<forall>a. index (rs2 a) = index (reactions s1 a)"
        "\<forall>q. (pq2 q = None) = (pqueues s1 q = None)"
        "tag_events ev2 = []"
        "m2 = lf_sched_executing_q_mutex s1 \<or> m2 = unlocked"
    by blast
  have "s' = s\<lparr>reactions := rs2, pqueues := pq2, lf_sched_executing_q_mutex := m2,
                  trace := trace s @ (ev1 @ ev2)\<rparr>"
    using s1 s2 by simp
  moreover have "\<forall>a. index (rs2 a) = index (reactions s a)"
    using f1 f2 s1 by simp
  moreover have "\<forall>q. (pq2 q = None) = (pqueues s q = None)"
    using f1 f2 s1 by simp
  moreover have "tag_events (ev1 @ ev2) = []"
    using f1 f2 by (simp add: tag_events_def)
  moreover have "m2 = lf_sched_executing_q_mutex s \<or> m2 = unlocked"
    using f1 f2 s1 by auto
  ultimately show ?case
    by blast
qed


lemma slots_live_frame:
  assumes "slots_live cfg s"
      and "\<forall>q. (pq' q = None) = (pqueues s q = None)"
  shows "slots_live cfg (s\<lparr>reactions := rs', pqueues := pq',
            lf_sched_executing_q_mutex := m', trace := tr'\<rparr>)"
  using assms by (simp add: slots_live_def)

lemma levels_in_range_cong:
  assumes "\<forall>a. index (reactions s' a) = index (reactions s a)"
  shows "levels_in_range cfg s' rs = levels_in_range cfg s rs"
  using assms by (auto simp: levels_in_range_def list_all_iff split: option.splits)

lemma levels_in_range_frame:
  assumes "levels_in_range cfg s rs"
      and "\<forall>a. index (rs' a) = index (reactions s a)"
  shows "levels_in_range cfg (s\<lparr>reactions := rs', pqueues := pq',
            lf_sched_executing_q_mutex := m', trace := tr'\<rparr>) rs"
  using assms by (auto simp: levels_in_range_def list_all_iff split: option.splits)

lemma slots_live_slot:
  assumes "slots_live cfg s" and "L \<le> max_level cfg"
  shows "\<exists>q qs. vector_at s L = Inr q \<and> pqueues s q = Some qs"
proof -
  from assms have lt: "unat L < length (vector_of_reaction_qs s)"
    by (simp add: slots_live_def word_le_nat_alt)
  moreover from assms have "\<forall>q \<in> set (vector_of_reaction_qs s). pqueues s q \<noteq> None"
    by (simp add: slots_live_def list_all_iff)
  ultimately have "pqueues s (vector_of_reaction_qs s ! unat L) \<noteq> None"
    by simp
  with lt show ?thesis
    by (auto simp: vector_at_def)
qed

lemma trigger_succeeds:
  assumes live: "slots_live cfg s"
      and lev: "levels_in_range cfg s [r]"
  shows "\<exists>s'. lf_sched_trigger_reaction cfg r w s = Inr s'"
proof (cases r)
  case None
  then show ?thesis
    by (simp add: lf_sched_trigger_reaction_def)
next
  case (Some a)
  show ?thesis
  proof (cases "status (reactions s a) = inactive")
    case False
    with Some show ?thesis
      by (simp add: trigger_not_inactive)
  next
    case True
    from lev Some have "LEVEL cfg (index (reactions s a)) \<le> max_level cfg"
      by (simp add: levels_in_range_def)
    from slots_live_slot [OF live this] obtain q qs
      where "vector_at s (LEVEL cfg (index (reactions s a))) = Inr q" "pqueues s q = Some qs"
      by blast
    from trigger_inactive_result [OF True this] Some show ?thesis
      by simp
  qed
qed

lemma trigger_all_succeeds:
  assumes "slots_live cfg s" and "levels_in_range cfg s rs"
  shows "\<exists>s'. trigger_all cfg rs s = Inr s'"
  using assms
proof (induction rs arbitrary: s)
  case Nil
  then show ?case by simp
next
  case (Cons r rs)
  from Cons.prems have "levels_in_range cfg s [r]" and tl: "levels_in_range cfg s rs"
    by (simp_all add: levels_in_range_def)
  from trigger_succeeds [OF Cons.prems(1) this(1)] obtain s1
    where one: "lf_sched_trigger_reaction cfg r (- 1) s = Inr s1"
    by blast
  from trigger_frame [OF one] obtain rs1 pq1 m1 ev1 where
    s1: "s1 = s\<lparr>reactions := rs1, pqueues := pq1, lf_sched_executing_q_mutex := m1,
                  trace := trace s @ ev1\<rparr>" and
    f1: "\<forall>a. index (rs1 a) = index (reactions s a)"
        "\<forall>q. (pq1 q = None) = (pqueues s q = None)"
    by blast
  have "slots_live cfg s1"
    unfolding s1 using Cons.prems(1) f1(2) by (rule slots_live_frame)
  moreover have "levels_in_range cfg s1 rs"
    unfolding s1 using tl f1(1) by (rule levels_in_range_frame)
  ultimately obtain s2 where "trigger_all cfg rs s1 = Inr s2"
    using Cons.IH by blast
  with one show ?case
    by simp
qed

lemma should_stop_locked_result:
  "lf_sched_should_stop_locked s =
     (if lf_logical_tag_completed s
      then (compare_tags (current_tag s) (stop_tag s) \<ge> 0,
            s\<lparr>trace := trace s @ [LogicalTagComplete (current_tag s)]\<rparr>)
      else (False, s))"
  by (simp add: lf_sched_should_stop_locked_def logical_tag_complete_def Let_def)

section \<open>More facts about the concrete states\<close>


lemma example_triggered_eq:
  "example_triggered =
     example_init
       \<lparr>reactions := example_reactions(1 := (example_reactions 1)\<lparr>status := queued\<rparr>),
        pqueues := (pqueues example_init)(1 \<mapsto> [1]),
        trace := trace example_init @ [PqueueInsert 1 1]\<rparr>"
proof -
  have inact: "status (reactions example_init 1) = inactive"
    by (simp add: example_init_eq example_reactions_def)
  have slot: "vector_at example_init
      (LEVEL example_cfg_plain (index (reactions example_init 1))) = Inr 1"
    by (simp add: example_init_eq example_cfg_plain_def example_cfg_def
        example_reactions_def vector_at_def)
  have live: "pqueues example_init 1 = Some []"
    by (simp add: example_init_eq)
  show ?thesis
    unfolding example_triggered_def trigger_inactive_result [OF inact slot live]
    by (simp add: insert_takes_lock_def example_cfg_plain_def set_status_def example_init_eq)
qed

lemma example_draining_eq:
  "example_draining =
     example_triggered\<lparr>executing_q := 1, lf_sched_next_reaction_level := 1\<rparr>"
  unfolding example_draining_def
  by (subst lf_sched_distribute_ready_reactions_locked.simps)
     (simp add: max_level_example_plain example_triggered_eq example_init_eq vector_at_def
       pqueue_size_def)

section \<open>The enqueue path: claims C3, C1 and C10\<close>

text \<open>
  Claim C3. For a non-null reaction \<open>r\<close> whose level is a slot of the array holding
  a live queue, \<open>lf_sched_trigger_reaction(r, w)\<close> appends \<open>r\<close> to the queue of slot
  \<open>LEVEL(r.index)\<close> and sets \<open>r.status\<close> to \<open>queued\<close> when the status was \<open>inactive\<close>;
  when the compare-and-swap fails the call returns the state it was given, so every
  queue and \<open>r\<close> are unchanged; a second call after a first changes nothing more
  (idempotence within a tag); and a null reaction is ignored.
\<close>

theorem C3_trigger_reaction:
  assumes slot: "vector_at s (LEVEL cfg (index (reactions s r))) = Inr q"
      and live: "pqueues s q = Some rs"
  shows "(status (reactions s r) = inactive \<longrightarrow>
            (\<exists>s'. lf_sched_trigger_reaction cfg (Some r) w s = Inr s'
               \<and> pqueues s' = (pqueues s)(q \<mapsto> rs @ [r])
               \<and> reactions s' = (reactions s)(r := (reactions s r)\<lparr>status := queued\<rparr>)))
       \<and> (status (reactions s r) \<noteq> inactive \<longrightarrow>
            lf_sched_trigger_reaction cfg (Some r) w s = Inr s)
       \<and> (\<forall>s1. lf_sched_trigger_reaction cfg (Some r) w s = Inr s1 \<longrightarrow>
            lf_sched_trigger_reaction cfg (Some r) w s1 = Inr s1)
       \<and> lf_sched_trigger_reaction cfg None w s = Inr s"
proof (intro conjI impI allI)
  assume inact: "status (reactions s r) = inactive"
  show "\<exists>s'. lf_sched_trigger_reaction cfg (Some r) w s = Inr s'
               \<and> pqueues s' = (pqueues s)(q \<mapsto> rs @ [r])
               \<and> reactions s' = (reactions s)(r := (reactions s r)\<lparr>status := queued\<rparr>)"
    by (simp add: trigger_inactive_result [OF inact slot live] set_status_def)
next
  assume "status (reactions s r) \<noteq> inactive"
  then show "lf_sched_trigger_reaction cfg (Some r) w s = Inr s"
    by (rule trigger_not_inactive)
next
  fix s1
  assume once: "lf_sched_trigger_reaction cfg (Some r) w s = Inr s1"
  show "lf_sched_trigger_reaction cfg (Some r) w s1 = Inr s1"
  proof (cases "status (reactions s r) = inactive")
    case True
    with once have "lf_sched_insert_reaction cfg r (set_status r queued s) = Inr s1"
      by (simp add: trigger_inactive)
    then have "reactions s1 = reactions (set_status r queued s)"
      by (rule insert_reaction_status)
    then have "status (reactions s1 r) = queued"
      by (simp add: set_status_def)
    then show ?thesis
      by (simp add: trigger_not_inactive)
  next
    case False
    with once have "s1 = s"
      by (simp add: trigger_not_inactive)
    with False show ?thesis
      by (simp add: trigger_not_inactive)
  qed
next
  show "lf_sched_trigger_reaction cfg None w s = Inr s"
    by (simp add: lf_sched_trigger_reaction_def)
qed

theorem C3_trigger_reaction_witness:
  "\<exists>s'. lf_sched_trigger_reaction example_cfg (Some 1) 0 example_init = Inr s'
      \<and> pqueues s' = (pqueues example_init)(1 \<mapsto> [1])
      \<and> status (reactions s' 1) = queued
      \<and> lf_sched_trigger_reaction example_cfg (Some 1) 0 s' = Inr s'"
proof -
  have slot: "vector_at example_init
      (LEVEL example_cfg (index (reactions example_init 1))) = Inr 1"
    by (simp add: example_init_eq example_cfg_def example_reactions_def vector_at_def)
  have live: "pqueues example_init 1 = Some []"
    by (simp add: example_init_eq)
  have inact: "status (reactions example_init 1) = inactive"
    by (simp add: example_init_eq example_reactions_def)
  from C3_trigger_reaction [OF slot live, of 0] inact show ?thesis
    by auto
qed

text \<open>
  Claim C10. The worker-number argument has no influence: from the same state,
  \<open>lf_sched_trigger_reaction\<close> gives the same result and the same state for any two
  worker numbers, in particular the one it gives for -1 (the trigger is immediate
  for every caller), and so does \<open>lf_sched_done_with_reaction\<close>.
\<close>

theorem C10_worker_number_ignored:
  "lf_sched_trigger_reaction cfg r w1 s = lf_sched_trigger_reaction cfg r w2 s
   \<and> lf_sched_trigger_reaction cfg r w1 s = lf_sched_trigger_reaction cfg r (- 1) s
   \<and> lf_sched_done_with_reaction v1 d s = lf_sched_done_with_reaction v2 d s"
  by (simp add: lf_sched_trigger_reaction_def lf_sched_done_with_reaction_def)

text \<open>
  Claim C1, as the code has it. The lock around the insert is compiled only with
  \<open>FEDERATED\<close>. For a trigger whose compare-and-swap succeeds, with the level a slot
  of the array holding a live queue: in a federated build, and when the level is
  \<open>next_level - 1\<close> (in \<open>size_t\<close> arithmetic), the calls are \<open>lf_mutex_lock\<close>,
  \<open>pqueue_insert\<close>, \<open>lf_mutex_unlock\<close> on the executing-queue mutex, in this order;
  in every other case the only call is \<open>pqueue_insert\<close>.
\<close>

theorem C1_insert_locked_when_federated:
  assumes inact: "status (reactions s r) = inactive"
      and slot: "vector_at s (LEVEL cfg (index (reactions s r))) = Inr q"
      and live: "pqueues s q = Some rs"
  shows "\<exists>s'. lf_sched_trigger_reaction cfg (Some r) w s = Inr s'
      \<and> trace s' = trace s @
           (if FEDERATED cfg
               \<and> LEVEL cfg (index (reactions s r)) = lf_sched_next_reaction_level s - 1
            then [MutexLock executing_q_mutex, PqueueInsert q r, MutexUnlock executing_q_mutex]
            else [PqueueInsert q r])"
  by (simp add: trigger_inactive_result [OF inact slot live] insert_takes_lock_def
      set_status_def)

text \<open>A federated build, a trigger at the level being drained.\<close>

theorem C1_insert_locked_when_federated_witness:
  "\<exists>s'. lf_sched_trigger_reaction example_cfg (Some 3) 0 example_draining = Inr s'
      \<and> trace s' = trace example_draining @
           [MutexLock executing_q_mutex, PqueueInsert 1 3, MutexUnlock executing_q_mutex]"
proof -
  have inact: "status (reactions example_draining 3) = inactive"
    by (simp add: example_draining_eq example_triggered_eq example_init_eq
        example_reactions_def)
  have slot: "vector_at example_draining
      (LEVEL example_cfg (index (reactions example_draining 3))) = Inr 1"
    by (simp add: example_draining_eq example_triggered_eq example_init_eq
        example_reactions_def example_cfg_def vector_at_def)
  have live: "pqueues example_draining 1 = Some [1]"
    by (simp add: example_draining_eq example_triggered_eq example_init_eq)
  have lev: "FEDERATED example_cfg
      \<and> LEVEL example_cfg (index (reactions example_draining 3))
          = lf_sched_next_reaction_level example_draining - 1"
    by (simp add: example_draining_eq example_triggered_eq example_init_eq
        example_reactions_def example_cfg_def)
  from C1_insert_locked_when_federated [OF inact slot live, of 0] lev
  show ?thesis
    by simp
qed

text \<open>
  The claim as stated fails in two ways. Without \<open>FEDERATED\<close>, a trigger at level
  \<open>next_level - 1\<close>, into the queue \<open>executing_q\<close> points to, inserts without any
  mutex operation. With \<open>FEDERATED\<close>, right after \<open>lf_sched_init\<close> (\<open>next_level\<close> is
  0, so \<open>next_level - 1\<close> is the largest \<open>size_t\<close>), a trigger at level 0 inserts
  without the mutex into the queue \<open>executing_q\<close> points to.
\<close>

theorem C1_unlocked_insert_counterexample:
  "status (reactions example_draining 3) = inactive
   \<and> LEVEL example_cfg_plain (index (reactions example_draining 3))
       = lf_sched_next_reaction_level example_draining - 1
   \<and> vector_at example_draining
        (LEVEL example_cfg_plain (index (reactions example_draining 3)))
       = Inr (executing_q example_draining)
   \<and> map_sum id trace (lf_sched_trigger_reaction example_cfg_plain (Some 3) 0 example_draining)
       = Inr (trace example_draining @ [PqueueInsert (executing_q example_draining) 3])
   \<and> FEDERATED example_cfg
   \<and> status (reactions example_init 1) = inactive
   \<and> vector_at example_init (LEVEL example_cfg (index (reactions example_init 1)))
       = Inr (executing_q example_init)
   \<and> map_sum id trace (lf_sched_trigger_reaction example_cfg (Some 1) (- 1) example_init)
       = Inr (trace example_init @ [PqueueInsert (executing_q example_init) 1])"
proof -
  have inact: "status (reactions example_draining 3) = inactive"
    by (simp add: example_draining_eq example_triggered_eq example_init_eq
        example_reactions_def)
  have lev: "LEVEL example_cfg_plain (index (reactions example_draining 3))
       = lf_sched_next_reaction_level example_draining - 1"
    by (simp add: example_draining_eq example_triggered_eq example_init_eq
        example_reactions_def example_cfg_plain_def example_cfg_def)
  have slot: "vector_at example_draining
      (LEVEL example_cfg_plain (index (reactions example_draining 3)))
       = Inr (executing_q example_draining)"
    by (simp add: example_draining_eq example_triggered_eq example_init_eq
        example_reactions_def example_cfg_plain_def example_cfg_def vector_at_def)
  have live: "pqueues example_draining (executing_q example_draining) = Some [1]"
    by (simp add: example_draining_eq example_triggered_eq example_init_eq)
  have plain: "map_sum id trace
      (lf_sched_trigger_reaction example_cfg_plain (Some 3) 0 example_draining)
       = Inr (trace example_draining @ [PqueueInsert (executing_q example_draining) 3])"
    by (subst trigger_inactive_result [OF inact slot live])
       (simp add: insert_takes_lock_def example_cfg_plain_def set_status_def)
  have fed: "FEDERATED example_cfg"
    by (simp add: example_cfg_def)
  have inact0: "status (reactions example_init 1) = inactive"
    by (simp add: example_init_eq example_reactions_def)
  have slot0: "vector_at example_init (LEVEL example_cfg (index (reactions example_init 1)))
       = Inr (executing_q example_init)"
    by (simp add: example_init_eq example_reactions_def example_cfg_def vector_at_def)
  have live0: "pqueues example_init (executing_q example_init) = Some []"
    by (simp add: example_init_eq)
  have nolock: "\<not> insert_takes_lock example_cfg
      (LEVEL example_cfg (index (reactions example_init 1))) example_init"
    by (simp add: insert_takes_lock_def example_init_eq example_reactions_def example_cfg_def)
  have init: "map_sum id trace
      (lf_sched_trigger_reaction example_cfg (Some 1) (- 1) example_init)
       = Inr (trace example_init @ [PqueueInsert (executing_q example_init) 1])"
    using nolock
    by (subst trigger_inactive_result [OF inact0 slot0 live0])
       (simp add: set_status_def)
  from inact lev slot plain fed inact0 slot0 init show ?thesis
    by blast
qed

section \<open>Reporting completion: claim C6\<close>

text \<open>
  Claim C6. \<open>lf_sched_done_with_reaction(w, r)\<close> performs the compare-and-swap of
  \<open>r.status\<close> from \<open>queued\<close> to \<open>inactive\<close>. When the status is \<open>queued\<close> the result is
  the state given with nothing changed but \<open>r.status\<close>, now \<open>inactive\<close>; with any
  other status the runtime exits through \<open>error_print_and_exit\<close>.
\<close>

theorem C6_done_with_reaction:
  "lf_sched_done_with_reaction w (Some r) s =
     (if status (reactions s r) = queued
      then Inr (s\<lparr>reactions := (reactions s)(r := (reactions s r)\<lparr>status := inactive\<rparr>)\<rparr>)
      else Inl (ErrorPrintAndExit ''Unexpected reaction status''))"
  by (simp add: lf_sched_done_with_reaction_def lf_bool_compare_and_swap_def set_status_def)

theorem C6_done_with_reaction_witness:
  "lf_sched_done_with_reaction 0 (Some 1) (set_status 1 queued example_init)
     = Inr (set_status 1 inactive example_init)
   \<and> lf_sched_done_with_reaction 0 (Some 1) example_init
     = Inl (ErrorPrintAndExit ''Unexpected reaction status'')"
  using C6_done_with_reaction [of 0 1 "set_status 1 queued example_init"]
    C6_done_with_reaction [of 0 1 example_init]
  by (simp add: set_status_def example_init_eq example_reactions_def)

section \<open>Advancing the tag: claim C4\<close>

text \<open>
  Claim C4. In a state whose array slots hold live queues, and with an external
  \<open>_lf_next_locked\<close> that triggers reactions of levels inside the array,
  \<open>_lf_sched_advance_tag_locked\<close> returns true exactly when on entry
  \<open>_lf_logical_tag_completed\<close> is set and \<open>compare_tags(current_tag, stop_tag) >= 0\<close>;
  on that path its only call is \<open>logical_tag_complete(current_tag)\<close>, once, and
  \<open>_lf_next_locked\<close> is not called. On the other path it returns false with
  \<open>_lf_logical_tag_completed\<close> set, after one call of \<open>_lf_next_locked\<close>, preceded
  by one call of \<open>logical_tag_complete(current_tag)\<close> exactly when the flag was set on
  entry.
\<close>

theorem C4_advance_tag_locked:
  assumes live: "slots_live cfg s"
      and lev: "\<And>s1. levels_in_range cfg s (next_reactions (env s1))"
  shows "((\<exists>s'. lf_sched_advance_tag_locked cfg env s = Inr (True, s'))
            \<longleftrightarrow> (lf_logical_tag_completed s \<and> compare_tags (current_tag s) (stop_tag s) \<ge> 0))
       \<and> (lf_logical_tag_completed s \<and> compare_tags (current_tag s) (stop_tag s) \<ge> 0 \<longrightarrow>
            lf_sched_advance_tag_locked cfg env s
              = Inr (True, s\<lparr>trace := trace s @ [LogicalTagComplete (current_tag s)]\<rparr>))
       \<and> (\<not> (lf_logical_tag_completed s \<and> compare_tags (current_tag s) (stop_tag s) \<ge> 0) \<longrightarrow>
            (\<exists>s' evs. lf_sched_advance_tag_locked cfg env s = Inr (False, s')
               \<and> lf_logical_tag_completed s'
               \<and> trace s' = trace s @ evs
               \<and> tag_events evs =
                    (if lf_logical_tag_completed s
                     then [LogicalTagComplete (current_tag s), NextLocked]
                     else [NextLocked])))"
proof -
  let ?stop = "lf_logical_tag_completed s \<and> compare_tags (current_tag s) (stop_tag s) \<ge> 0"
  have stop: "lf_sched_advance_tag_locked cfg env s
              = Inr (True, s\<lparr>trace := trace s @ [LogicalTagComplete (current_tag s)]\<rparr>)"
    if ?stop
    using that by (simp add: lf_sched_advance_tag_locked_def should_stop_locked_result)
  have go: "\<exists>s' evs. lf_sched_advance_tag_locked cfg env s = Inr (False, s')
               \<and> lf_logical_tag_completed s'
               \<and> trace s' = trace s @ evs
               \<and> tag_events evs =
                    (if lf_logical_tag_completed s
                     then [LogicalTagComplete (current_tag s), NextLocked]
                     else [NextLocked])"
    if nstop: "\<not> ?stop"
  proof -
    define pre where "pre = (if lf_logical_tag_completed s
        then [LogicalTagComplete (current_tag s)] else [])"
    define s1 where "s1 = s\<lparr>trace := trace s @ pre\<rparr>"
    define s2 where "s2 = s1\<lparr>lf_logical_tag_completed := True\<rparr>"
    define s3 where "s3 = s2\<lparr>current_tag := next_current_tag (env s2),
          stop_tag := next_stop_tag (env s2), trace := trace s2 @ [NextLocked]\<rparr>"
    have adv: "lf_sched_advance_tag_locked cfg env s =
        (case trigger_all cfg (next_reactions (env s2)) s3 of
           Inl e \<Rightarrow> Inl e | Inr s4 \<Rightarrow> Inr (False, s4))"
      using nstop
      by (auto simp: lf_sched_advance_tag_locked_def should_stop_locked_result
          lf_next_locked_def s3_def s2_def s1_def pre_def Let_def)
    have "slots_live cfg s3"
      using live by (simp add: slots_live_def s3_def s2_def s1_def)
    moreover have "levels_in_range cfg s3 (next_reactions (env s2))
        = levels_in_range cfg s (next_reactions (env s2))"
      by (rule levels_in_range_cong) (simp add: s3_def s2_def s1_def)
    then have "levels_in_range cfg s3 (next_reactions (env s2))"
      using lev [of s2] by simp
    ultimately obtain s4 where all: "trigger_all cfg (next_reactions (env s2)) s3 = Inr s4"
      using trigger_all_succeeds by blast
    from trigger_all_frame [OF all] obtain rs' pq' m' ev where
      s4: "s4 = s3\<lparr>reactions := rs', pqueues := pq', lf_sched_executing_q_mutex := m',
                  trace := trace s3 @ ev\<rparr>" and
      ev: "tag_events ev = []"
      by blast
    have "lf_sched_advance_tag_locked cfg env s = Inr (False, s4)"
      using adv all by simp
    moreover have "lf_logical_tag_completed s4"
      by (simp add: s4 s3_def s2_def)
    moreover have "trace s4 = trace s @ (pre @ [NextLocked] @ ev)"
      by (simp add: s4 s3_def s2_def s1_def)
    moreover have "tag_events (pre @ [NextLocked] @ ev) =
                    (if lf_logical_tag_completed s
                     then [LogicalTagComplete (current_tag s), NextLocked]
                     else [NextLocked])"
      using ev by (simp add: tag_events_def pre_def)
    ultimately show ?thesis
      by blast
  qed
  have iff: "(\<exists>s'. lf_sched_advance_tag_locked cfg env s = Inr (True, s')) \<longleftrightarrow> ?stop"
  proof
    assume "\<exists>s'. lf_sched_advance_tag_locked cfg env s = Inr (True, s')"
    then show ?stop
      using go by (cases ?stop) auto
  next
    assume ?stop
    then show "\<exists>s'. lf_sched_advance_tag_locked cfg env s = Inr (True, s')"
      using stop by blast
  qed
  from iff stop go show ?thesis
    by blast
qed

theorem C4_advance_tag_locked_witness:
  "(\<exists>s' evs. lf_sched_advance_tag_locked example_cfg example_env example_init = Inr (False, s')
       \<and> lf_logical_tag_completed s'
       \<and> trace s' = trace example_init @ evs
       \<and> tag_events evs = [NextLocked])
   \<and> lf_sched_advance_tag_locked example_cfg example_env
         (example_init\<lparr>current_tag := tag1, lf_logical_tag_completed := True\<rparr>)
       = Inr (True, example_init\<lparr>current_tag := tag1, lf_logical_tag_completed := True,
           trace := trace example_init @ [LogicalTagComplete tag1]\<rparr>)"
proof -
  have live: "slots_live example_cfg example_init"
    by (simp add: slots_live_def example_init_eq max_level_example)
  have lev: "levels_in_range example_cfg example_init (next_reactions (example_env s1))" for s1
    by (simp add: levels_in_range_def example_env_def example_init_eq example_reactions_def
        example_cfg_def max_level_def)
  let ?s = "example_init\<lparr>current_tag := tag1, lf_logical_tag_completed := True\<rparr>"
  have live': "slots_live example_cfg ?s"
    using live by (simp add: slots_live_def)
  have lev': "levels_in_range example_cfg ?s (next_reactions (example_env s1))" for s1
    by (simp add: levels_in_range_def example_env_def example_init_eq example_reactions_def
        example_cfg_def max_level_def)
  have a: "\<not> lf_logical_tag_completed example_init"
    by (simp add: example_init_eq)
  have b: "lf_logical_tag_completed ?s \<and> compare_tags (current_tag ?s) (stop_tag ?s) \<ge> 0"
    by (simp add: example_init_eq compare_tags_def)
  from C4_advance_tag_locked [of example_cfg example_init example_env, OF live lev] a
    C4_advance_tag_locked [of example_cfg ?s example_env, OF live' lev'] b
  show ?thesis
    by simp
qed

section \<open>Waking the workers: claim C7\<close>

lemma MIN_size_t_min: "MIN_size_t a b = min a b"
  by (auto simp: MIN_size_t_def min_def)

text \<open>
  Claim C7. With \<open>executing_q\<close> a live queue of size \<open>k\<close> and a live semaphore,
  \<open>_lf_sched_notify_workers\<close> computes \<open>w = min(n_idle, k)\<close>, takes exactly \<open>w\<close> off
  the idle count (the subtraction does not wrap), and releases the semaphore once
  by \<open>w - 1\<close> permits when \<open>w > 1\<close>, and not at all when \<open>w <= 1\<close>.
\<close>

theorem C7_notify_workers:
  assumes size: "pqueue_size (executing_q s) s = Inr k"
      and sem: "lf_sched_semaphore s = Some c"
  shows "\<exists>s'. lf_sched_notify_workers s = Inr s'
      \<and> lf_sched_number_of_idle_workers s'
          = lf_sched_number_of_idle_workers s - min (lf_sched_number_of_idle_workers s) k
      \<and> unat (lf_sched_number_of_idle_workers s')
          = unat (lf_sched_number_of_idle_workers s)
            - unat (min (lf_sched_number_of_idle_workers s) k)
      \<and> trace s' = trace s @
           (if min (lf_sched_number_of_idle_workers s) k > 1
            then [SemaphoreRelease (min (lf_sched_number_of_idle_workers s) k - 1)]
            else [])
      \<and> lf_sched_semaphore s' =
           Some (if min (lf_sched_number_of_idle_workers s) k > 1
                 then c + (min (lf_sched_number_of_idle_workers s) k - 1)
                 else c)"
proof -
  let ?w = "min (lf_sched_number_of_idle_workers s) k"
  have "?w \<le> lf_sched_number_of_idle_workers s"
    by simp
  then have "unat (lf_sched_number_of_idle_workers s - ?w)
      = unat (lf_sched_number_of_idle_workers s) - unat ?w"
    by (rule unat_sub)
  then show ?thesis
    using size sem
    by (simp add: lf_sched_notify_workers_def MIN_size_t_min Let_def lf_semaphore_release_def)
qed

theorem C7_notify_workers_witness:
  "\<exists>s'. lf_sched_notify_workers
          (example_init\<lparr>pqueues := (pqueues example_init)(1 \<mapsto> [1, 3, 4]),
            lf_sched_number_of_idle_workers := 2\<rparr>) = Inr s'
      \<and> lf_sched_number_of_idle_workers s' = 0
      \<and> trace s' = trace example_init @ [SemaphoreRelease 1]
      \<and> lf_sched_semaphore s' = Some 1"
proof -
  let ?s = "example_init\<lparr>pqueues := (pqueues example_init)(1 \<mapsto> [1, 3, 4]),
            lf_sched_number_of_idle_workers := 2\<rparr>"
  have size: "pqueue_size (executing_q ?s) ?s = Inr 3"
    by (simp add: pqueue_size_def example_init_eq)
  have sem: "lf_sched_semaphore ?s = Some 0"
    by (simp add: example_init_eq)
  have m: "min (2 :: size_t) 3 = 2"
    by simp
  from C7_notify_workers [OF size sem] have "\<exists>s'. lf_sched_notify_workers ?s = Inr s'
      \<and> lf_sched_number_of_idle_workers s' = 0
      \<and> unat (lf_sched_number_of_idle_workers s') = 0
      \<and> trace s' = trace example_init @ [SemaphoreRelease 1]
      \<and> lf_sched_semaphore s' = Some 1"
    by (simp add: m)
  then show ?thesis
    by blast
qed

section \<open>Teardown: claim C2\<close>

text \<open>
  Claim C2, as the code has it. With \<open>executing_q\<close> a live queue, \<open>lf_sched_free\<close>
  destroys the semaphore and performs no operation on a mutex: the executing-queue
  mutex and the global mutex are as they were (the platform layer has
  \<open>lf_mutex_init\<close>, \<open>lf_mutex_lock\<close> and \<open>lf_mutex_unlock\<close> and nothing that releases
  a mutex). When the semaphore cannot be destroyed the runtime exits through
  \<open>error_print_and_exit\<close>.
\<close>

theorem C2_free_semaphore_and_mutex:
  assumes live: "pqueues s (executing_q s) = Some rs"
  shows "(lf_sched_semaphore s \<noteq> None \<longrightarrow>
           (\<exists>s' evs. lf_sched_free s = Inr s'
              \<and> lf_sched_semaphore s' = None
              \<and> trace s' = trace s @ evs
              \<and> SemaphoreDestroy \<in> set evs
              \<and> filter is_mutex_event evs = []
              \<and> lf_sched_executing_q_mutex s' = lf_sched_executing_q_mutex s
              \<and> mutex s' = mutex s))
       \<and> (lf_sched_semaphore s = None \<longrightarrow>
           lf_sched_free s
             = Inl (ErrorPrintAndExit ''Scheduler: Could not destroy my semaphore.''))"
  using live
  by (auto simp: lf_sched_free_def pqueue_free_def lf_semaphore_destroy_def)

theorem C2_free_semaphore_and_mutex_witness:
  "\<exists>s' evs. lf_sched_free example_init = Inr s'
      \<and> lf_sched_semaphore s' = None
      \<and> trace s' = trace example_init @ evs
      \<and> SemaphoreDestroy \<in> set evs
      \<and> filter is_mutex_event evs = []
      \<and> lf_sched_executing_q_mutex s' = unlocked"
proof -
  have live: "pqueues example_init (executing_q example_init) = Some []"
    by (simp add: example_init_eq)
  have sem: "lf_sched_semaphore example_init \<noteq> None"
    by (simp add: example_init_eq)
  have m: "lf_sched_executing_q_mutex example_init = unlocked"
    by (simp add: example_init_eq)
  from C2_free_semaphore_and_mutex [OF live] sem m show ?thesis
    by auto
qed

text \<open>
  The claim as stated fails on the state \<open>lf_sched_init(2)\<close> leaves with two levels:
  after \<open>lf_sched_free\<close> the queue of level 1 (address 2) is still allocated, the
  executing-queue mutex is still initialised, and the only calls were the free of
  the queue \<open>executing_q\<close> pointed to and the destruction of the semaphore.
\<close>

theorem C2_free_leaks_counterexample:
  "vector_of_reaction_qs example_init = [1, 2]
   \<and> pqueues example_init 2 = Some []
   \<and> map_sum id (\<lambda>s. pqueues s 2) (lf_sched_free example_init) = Inr (Some [])
   \<and> map_sum id (\<lambda>s. lf_sched_executing_q_mutex s) (lf_sched_free example_init) = Inr unlocked
   \<and> map_sum id trace (lf_sched_free example_init)
       = Inr (trace example_init @ [PqueueFree 1, SemaphoreDestroy])"
  by (simp add: lf_sched_free_def pqueue_free_def lf_semaphore_destroy_def example_init_eq)

section \<open>Scanning the levels: claim C5\<close>


lemma sint_small:
  assumes "n < 2 ^ 31"
  shows "sint (of_nat n :: 32 word) = int n"
proof -
  have "sint (of_nat n :: 32 word) = signed_take_bit 31 (int n)"
    by (simp add: signed_of_nat)
  also have "\<dots> = int n"
    using assms by (intro signed_take_bit_int_eq_self) simp_all
  finally show ?thesis .
qed

lemma ucast_size:
  assumes "n < 2 ^ 31"
  shows "(ucast (of_nat n :: 64 word) :: 32 word) = of_nat n"
proof -
  have "n < 2 ^ 64" "n < 2 ^ 32"
    using assms by simp_all
  then have "unat (ucast (of_nat n :: 64 word) :: 32 word) = unat (of_nat n :: 32 word)"
    by (simp add: unsigned_ucast_eq unat_of_nat take_bit_nat_eq_self)
  then show ?thesis
    by (simp only: word_unat_eq_iff)
qed

lemma size_nonzero:
  assumes "n < 2 ^ 31"
  shows "((of_nat n :: 64 word) = 0) = (n = 0)"
proof -
  have "n < 2 ^ 64" using assms by simp
  then have "unat (of_nat n :: 64 word) = n"
    by (simp add: unat_of_nat)
  then show ?thesis
    by (metis unat_eq_0)
qed

lemma unat_max_level: "unat (max_level cfg) < 2 ^ 32"
proof -
  have "unat (MAX_REACTION_LEVEL cfg) < 2 ^ 32"
    using unsigned_less [of "MAX_REACTION_LEVEL cfg", where 'a = nat] by simp
  then show ?thesis
    by (simp add: max_level_def unsigned_ucast_eq take_bit_nat_eq_self)
qed

lemma unat_level_succ:
  assumes "unat (x :: size_t) \<le> unat (max_level cfg)"
  shows "unat (x + 1) = Suc (unat x)"
proof -
  from assms unat_max_level [of cfg] have "unat x < 2 ^ 32"
    by simp
  then show ?thesis
    by (simp add: unat_word_ariths)
qed

lemma slots_by_levelD:
  assumes "slots_by_level cfg s"
      and "j < length (vector_of_reaction_qs s)"
      and "pqueues s (vector_of_reaction_qs s ! j) = Some rs"
      and "r \<in> set rs"
  shows "unat (LEVEL cfg (index (reactions s r))) = j"
proof -
  from assms(1,2) have "case pqueues s (vector_of_reaction_qs s ! j) of
               None \<Rightarrow> True
             | Some rs \<Rightarrow> list_all (\<lambda>r. unat (LEVEL cfg (index (reactions s r))) = j) rs"
    by (simp add: slots_by_level_def list_all_iff)
  with assms(3,4) show ?thesis
    by (simp add: list_all_iff)
qed

lemma distribute_scan:
  assumes "Suc (unat (max_level cfg)) - unat (lf_sched_next_reaction_level s) = d"
      and "unat (lf_sched_next_reaction_level s) \<le> Suc (unat (max_level cfg))"
      and "slots_live cfg s"
      and "slots_small s"
  shows "\<exists>k s'. lf_sched_distribute_ready_reactions_locked cfg s = Inr (k, s')
           \<and> distribute_post cfg s k s'"
  using assms
proof (induction d arbitrary: s)
  case 0
  let ?n = "lf_sched_next_reaction_level s"
  from 0 have eq: "unat ?n = Suc (unat (max_level cfg))"
    by simp
  have succ: "unat (max_level cfg + 1) = Suc (unat (max_level cfg))"
    by (rule unat_level_succ [of _ cfg]) simp
  from eq have nle: "\<not> ?n \<le> max_level cfg"
    by (simp add: word_le_nat_alt)
  then have "lf_sched_distribute_ready_reactions_locked cfg s = Inr (0, s)"
    by (subst lf_sched_distribute_ready_reactions_locked.simps) simp
  moreover have "?n = max_level cfg + 1"
    using eq succ by (simp add: word_unat_eq_iff)
  moreover have "\<forall>j. ?n \<le> j \<and> j \<le> max_level cfg \<longrightarrow> slot_queue s j = Some []"
    using eq by (auto simp: word_le_nat_alt)
  ultimately show ?case
    by (simp add: distribute_post_def)
next
  case (Suc d)
  let ?n = "lf_sched_next_reaction_level s"
  let ?q = "vector_of_reaction_qs s ! unat ?n"
  from Suc.prems have le: "unat ?n \<le> unat (max_level cfg)"
    by simp
  then have wle: "?n \<le> max_level cfg"
    by (simp add: word_le_nat_alt)
  have succ: "unat (?n + 1) = Suc (unat ?n)"
    using le by (rule unat_level_succ)
  from Suc.prems le have inb: "unat ?n < length (vector_of_reaction_qs s)"
    by (simp add: slots_live_def)
  then have at: "vector_at s ?n = Inr ?q"
    by (simp add: vector_at_def)
  from Suc.prems inb obtain rs where rs: "pqueues s ?q = Some rs"
    by (auto simp: slots_live_def list_all_length)
  from Suc.prems inb rs have small: "length rs < 2 ^ 31"
    by (auto simp: slots_small_def list_all_length split: option.splits)
  have sq: "slot_queue s ?n = Some rs"
    using at rs by (simp add: slot_queue_def)
  let ?s2 = "s\<lparr>executing_q := ?q, lf_sched_next_reaction_level := ?n + 1\<rparr>"
  show ?case
  proof (cases "rs = []")
    case False
    let ?k = "ucast (of_nat (length rs) :: size_t) :: c_int"
    from False small have nz: "(of_nat (length rs) :: size_t) \<noteq> 0"
      by (simp add: size_nonzero)
    have run: "lf_sched_distribute_ready_reactions_locked cfg s = Inr (?k, ?s2)"
      using wle at rs nz
      by (subst lf_sched_distribute_ready_reactions_locked.simps)
         (simp add: pqueue_size_def Let_def)
    have k: "sint ?k = int (length rs)"
      using small by (simp add: ucast_size sint_small)
    with False have pos: "0 <s ?k"
      by (simp add: word_sless_alt)
    have lev: "\<forall>r \<in> set rs. LEVEL cfg (index (reactions ?s2 r)) = ?n + 1 - 1"
      if "slots_by_level cfg s"
    proof
      fix r assume "r \<in> set rs"
      with that inb rs have "unat (LEVEL cfg (index (reactions s r))) = unat ?n"
        by (intro slots_by_levelD)
      then show "LEVEL cfg (index (reactions ?s2 r)) = ?n + 1 - 1"
        by (simp add: word_unat_eq_iff)
    qed
    have "distribute_post cfg s ?k ?s2"
      unfolding distribute_post_def
    proof (intro conjI impI)
      show "?s2 = s\<lparr>executing_q := executing_q ?s2,
             lf_sched_next_reaction_level := lf_sched_next_reaction_level ?s2\<rparr>"
        by simp
      show "0 <s ?k \<or> ?k = 0"
        using pos by simp
      show "\<exists>L rs'. ?n \<le> L \<and> L \<le> max_level cfg
              \<and> vector_at s L = Inr (executing_q ?s2)
              \<and> pqueues s (executing_q ?s2) = Some rs'
              \<and> sint ?k = int (length rs')
              \<and> lf_sched_next_reaction_level ?s2 = L + 1
              \<and> (\<forall>j. ?n \<le> j \<and> j < L \<longrightarrow> slot_queue s j = Some [])
              \<and> (slots_by_level cfg s \<longrightarrow>
                   (\<forall>r \<in> set rs'. LEVEL cfg (index (reactions ?s2 r))
                        = lf_sched_next_reaction_level ?s2 - 1))"
        using wle at rs k lev
        by (intro exI [of _ ?n] exI [of _ rs]) auto
      assume "?k = 0"
      with pos show "\<forall>j. ?n \<le> j \<and> j \<le> max_level cfg \<longrightarrow> slot_queue s j = Some []"
        by simp
      from \<open>?k = 0\<close> pos show "lf_sched_next_reaction_level ?s2 = max_level cfg + 1"
        by simp
    qed
    with run show ?thesis
      by blast
  next
    case True
    have run: "lf_sched_distribute_ready_reactions_locked cfg s
        = lf_sched_distribute_ready_reactions_locked cfg ?s2"
      using wle at rs True
      by (subst lf_sched_distribute_ready_reactions_locked.simps)
         (simp add: pqueue_size_def Let_def)
    have m: "Suc (unat (max_level cfg)) - unat (lf_sched_next_reaction_level ?s2) = d"
      using Suc.prems succ by simp
    have b: "unat (lf_sched_next_reaction_level ?s2) \<le> Suc (unat (max_level cfg))"
      using le succ by simp
    have l2: "slots_live cfg ?s2"
      using Suc.prems by (simp add: slots_live_def)
    have sm2: "slots_small ?s2"
      using Suc.prems by (simp add: slots_small_def)
    from Suc.IH [OF m b l2 sm2] obtain k s' where
      res: "lf_sched_distribute_ready_reactions_locked cfg ?s2 = Inr (k, s')" and
      post: "distribute_post cfg ?s2 k s'"
      by blast
    have sq2: "slot_queue ?s2 j = slot_queue s j" for j
      by (simp add: slot_queue_def vector_at_def)
    have va2: "vector_at ?s2 j = vector_at s j" for j
      by (simp add: vector_at_def)
    have bl2: "slots_by_level cfg ?s2 = slots_by_level cfg s"
      by (simp add: slots_by_level_def cong: option.case_cong)
    have split: "?n \<le> j \<longleftrightarrow> j = ?n \<or> ?n + 1 \<le> j" for j
      using succ by (auto simp: word_le_nat_alt word_unat_eq_iff)
    have empty: "slot_queue s ?n = Some []"
      using sq True by simp
    from post have a: "s' = ?s2\<lparr>executing_q := executing_q s',
             lf_sched_next_reaction_level := lf_sched_next_reaction_level s'\<rparr>"
      and b: "0 <s k \<or> k = 0"
      and c: "0 <s k \<longrightarrow>
           (\<exists>L rs. ?n + 1 \<le> L \<and> L \<le> max_level cfg
              \<and> vector_at s L = Inr (executing_q s')
              \<and> pqueues s (executing_q s') = Some rs
              \<and> sint k = int (length rs)
              \<and> lf_sched_next_reaction_level s' = L + 1
              \<and> (\<forall>j. ?n + 1 \<le> j \<and> j < L \<longrightarrow> slot_queue s j = Some [])
              \<and> (slots_by_level cfg s \<longrightarrow>
                   (\<forall>r \<in> set rs. LEVEL cfg (index (reactions s' r))
                        = lf_sched_next_reaction_level s' - 1)))"
      and d: "k = 0 \<longrightarrow>
           (\<forall>j. ?n + 1 \<le> j \<and> j \<le> max_level cfg \<longrightarrow> slot_queue s j = Some [])
           \<and> lf_sched_next_reaction_level s' = max_level cfg + 1"
      unfolding distribute_post_def sq2 va2 bl2 by simp_all
    have a': "s' = s\<lparr>executing_q := executing_q s',
             lf_sched_next_reaction_level := lf_sched_next_reaction_level s'\<rparr>"
      by (subst a) simp
    have c': "\<exists>L rs. ?n \<le> L \<and> L \<le> max_level cfg
              \<and> vector_at s L = Inr (executing_q s')
              \<and> pqueues s (executing_q s') = Some rs
              \<and> sint k = int (length rs)
              \<and> lf_sched_next_reaction_level s' = L + 1
              \<and> (\<forall>j. ?n \<le> j \<and> j < L \<longrightarrow> slot_queue s j = Some [])
              \<and> (slots_by_level cfg s \<longrightarrow>
                   (\<forall>r \<in> set rs. LEVEL cfg (index (reactions s' r))
                        = lf_sched_next_reaction_level s' - 1))"
      if "0 <s k"
    proof -
      from c that obtain L rs' where
        L: "?n + 1 \<le> L" "L \<le> max_level cfg"
           "vector_at s L = Inr (executing_q s')"
           "pqueues s (executing_q s') = Some rs'"
           "sint k = int (length rs')"
           "lf_sched_next_reaction_level s' = L + 1"
           "\<forall>j. ?n + 1 \<le> j \<and> j < L \<longrightarrow> slot_queue s j = Some []"
           "slots_by_level cfg s \<longrightarrow>
                   (\<forall>r \<in> set rs'. LEVEL cfg (index (reactions s' r))
                        = lf_sched_next_reaction_level s' - 1)"
        by blast
      from L(1) have "?n \<le> L"
        by (simp add: split)
      moreover have "\<forall>j. ?n \<le> j \<and> j < L \<longrightarrow> slot_queue s j = Some []"
        using L(7) empty by (auto simp: split)
      ultimately show ?thesis
        using L by blast
    qed
    have d': "(\<forall>j. ?n \<le> j \<and> j \<le> max_level cfg \<longrightarrow> slot_queue s j = Some [])
           \<and> lf_sched_next_reaction_level s' = max_level cfg + 1"
      if "k = 0"
      using d that empty by (auto simp: split)
    have "distribute_post cfg s k s'"
      unfolding distribute_post_def using a' b c' d' by blast
    with run res show ?thesis
      by simp
  qed
qed

text \<open>
  Claim C5. In a state whose array slots hold live queues with sizes that fit the
  \<open>int\<close> return type, and with \<open>next_level <= MAX_REACTION_LEVEL\<close>, the scan returns
  \<open>k > 0\<close> or \<open>k = 0\<close> and changes nothing but \<open>executing_q\<close> and \<open>next_level\<close>. When
  \<open>k > 0\<close>: there is a level \<open>L\<close> at or above the entry value of \<open>next_level\<close> such that
  \<open>executing_q\<close> is slot \<open>L\<close>, \<open>k\<close> is the size of that slot, \<open>next_level\<close> is \<open>L + 1\<close>,
  every slot from the entry value up to \<open>L\<close> (excluded) is empty, and, when each slot
  holds reactions of its own level only, every reaction of \<open>executing_q\<close> has level
  \<open>next_level - 1\<close>. When \<open>k = 0\<close>: every slot from the entry value through
  \<open>MAX_REACTION_LEVEL\<close> is empty and \<open>next_level\<close> is \<open>MAX_REACTION_LEVEL + 1\<close>.
\<close>

theorem C5_distribute_ready_reactions:
  assumes live: "slots_live cfg s"
      and small: "slots_small s"
      and entry: "lf_sched_next_reaction_level s \<le> max_level cfg"
  shows "\<exists>k s'. lf_sched_distribute_ready_reactions_locked cfg s = Inr (k, s')
      \<and> s' = s\<lparr>executing_q := executing_q s',
                 lf_sched_next_reaction_level := lf_sched_next_reaction_level s'\<rparr>
      \<and> (0 <s k \<or> k = 0)
      \<and> (0 <s k \<longrightarrow>
           (\<exists>L rs. lf_sched_next_reaction_level s \<le> L \<and> L \<le> max_level cfg
              \<and> vector_at s L = Inr (executing_q s')
              \<and> pqueues s (executing_q s') = Some rs
              \<and> sint k = int (length rs)
              \<and> lf_sched_next_reaction_level s' = L + 1
              \<and> (\<forall>j. lf_sched_next_reaction_level s \<le> j \<and> j < L \<longrightarrow> slot_queue s j = Some [])
              \<and> (slots_by_level cfg s \<longrightarrow>
                   (\<forall>r \<in> set rs. LEVEL cfg (index (reactions s' r))
                        = lf_sched_next_reaction_level s' - 1))))
      \<and> (k = 0 \<longrightarrow>
           (\<forall>j. lf_sched_next_reaction_level s \<le> j \<and> j \<le> max_level cfg
                \<longrightarrow> slot_queue s j = Some [])
           \<and> lf_sched_next_reaction_level s' = max_level cfg + 1)"
proof -
  from entry have "unat (lf_sched_next_reaction_level s) \<le> Suc (unat (max_level cfg))"
    by (simp add: word_le_nat_alt)
  from distribute_scan [OF refl this live small] show ?thesis
    unfolding distribute_post_def .
qed

theorem C5_distribute_ready_reactions_witness:
  "(\<exists>k s'. lf_sched_distribute_ready_reactions_locked example_cfg example_triggered = Inr (k, s')
      \<and> s' = example_draining \<and> sint k = 1)
   \<and> (\<exists>k s'. lf_sched_distribute_ready_reactions_locked example_cfg example_init = Inr (k, s')
      \<and> k = 0 \<and> lf_sched_next_reaction_level s' = 2)"
proof -
  have live: "slots_live example_cfg example_triggered"
    by (simp add: slots_live_def example_triggered_eq example_init_eq max_level_example)
  have small: "slots_small example_triggered"
    by (simp add: slots_small_def example_triggered_eq example_init_eq)
  have entry: "lf_sched_next_reaction_level example_triggered \<le> max_level example_cfg"
    by (simp add: example_triggered_eq example_init_eq)
  have live0: "slots_live example_cfg example_init"
    by (simp add: slots_live_def example_init_eq max_level_example)
  have small0: "slots_small example_init"
    by (simp add: slots_small_def example_init_eq)
  have entry0: "lf_sched_next_reaction_level example_init \<le> max_level example_cfg"
    by (simp add: example_init_eq)
  have run: "lf_sched_distribute_ready_reactions_locked example_cfg example_triggered
      = Inr (1, example_draining)"
    unfolding example_draining_eq
    by (subst lf_sched_distribute_ready_reactions_locked.simps)
       (simp add: max_level_example example_triggered_eq example_init_eq vector_at_def
         pqueue_size_def)
  from C5_distribute_ready_reactions [OF live small entry] run
  have first: "\<exists>k s'. lf_sched_distribute_ready_reactions_locked example_cfg example_triggered
      = Inr (k, s') \<and> s' = example_draining \<and> sint k = 1"
    by simp
  from C5_distribute_ready_reactions [OF live0 small0 entry0]
  obtain k s' where
    r0: "lf_sched_distribute_ready_reactions_locked example_cfg example_init = Inr (k, s')"
    and alt: "0 <s k \<or> k = 0"
    and pos: "0 <s k \<longrightarrow>
           (\<exists>L rs. pqueues example_init (executing_q s') = Some rs
              \<and> vector_at example_init L = Inr (executing_q s')
              \<and> sint k = int (length rs))"
    and zero: "k = 0 \<longrightarrow> lf_sched_next_reaction_level s' = max_level example_cfg + 1"
    by blast
  have "\<not> 0 <s k"
  proof
    assume "0 <s k"
    with pos obtain L rs where "pqueues example_init (executing_q s') = Some rs"
      "vector_at example_init L = Inr (executing_q s')" "sint k = int (length rs)"
      by blast
    moreover from this(2) have "executing_q s' = 1 \<or> executing_q s' = 2"
      by (auto simp: vector_at_def example_init_eq nth_Cons' split: if_splits)
    ultimately have "sint k = 0"
      by (auto simp: example_init_eq)
    with \<open>0 <s k\<close> show False
      by (simp add: word_sless_alt)
  qed
  with alt zero have "k = 0 \<and> lf_sched_next_reaction_level s' = 2"
    by (simp add: max_level_example)
  with r0 first show ?thesis
    by blast
qed

section \<open>Facts about the transition system\<close>

lemma same_control_refl [simp]: "same_control s s"
  by (simp add: same_control_def)

lemma same_control_trans:
  "same_control s s1 \<Longrightarrow> same_control s1 s2 \<Longrightarrow> same_control s s2"
  by (simp add: same_control_def)

lemma lock_control [simp]:
  "same_control s (lf_mutex_lock m s)" "same_control s (lf_mutex_unlock m s)"
  by (cases m; simp add: same_control_def lf_mutex_lock_def lf_mutex_unlock_def set_mutex_def)+

lemma pop_control:
  assumes "pqueue_pop q s = Inr (r, s')"
  shows "same_control s s' \<and> lf_sched_executing_q_mutex s' = lf_sched_executing_q_mutex s"
  using assms
  by (auto simp: pqueue_pop_def same_control_def Let_def split: option.splits if_splits)

lemma trigger_control:
  assumes "lf_sched_trigger_reaction cfg r w s = Inr s'"
  shows "same_control s s'"
  using trigger_frame [OF assms] by (auto simp: same_control_def)

lemma trigger_all_control:
  assumes "trigger_all cfg rs s = Inr s'"
  shows "same_control s s'"
  using trigger_all_frame [OF assms] by (auto simp: same_control_def)

lemma trigger_all_mutex:
  assumes "trigger_all cfg rs s = Inr s'"
  shows "lf_sched_executing_q_mutex s' = lf_sched_executing_q_mutex s
       \<or> lf_sched_executing_q_mutex s' = unlocked"
  using trigger_all_frame [OF assms] by auto

lemma trigger_mutex:
  assumes "lf_sched_trigger_reaction cfg r w s = Inr s'"
      and "\<not> trigger_waits cfg r s"
  shows "(lf_sched_executing_q_mutex s' = locked) = (lf_sched_executing_q_mutex s = locked)"
proof (cases r)
  case None
  with assms show ?thesis
    by (simp add: lf_sched_trigger_reaction_def)
next
  case (Some a)
  show ?thesis
  proof (cases "status (reactions s a) = inactive")
    case False
    with assms Some show ?thesis
      by (simp add: trigger_not_inactive)
  next
    case True
    with assms Some
    have ins: "lf_sched_insert_reaction cfg a (set_status a queued s) = Inr s'"
      by (simp add: trigger_inactive)
    then obtain q where slot: "vector_at s (LEVEL cfg (index (reactions s a))) = Inr q"
      by (auto simp: lf_sched_insert_reaction_def Let_def set_status_def vector_at_def
          lf_mutex_lock_def set_mutex_def split: sum.splits if_splits)
    with ins obtain qs where live: "pqueues s q = Some qs"
      by (auto simp: lf_sched_insert_reaction_def Let_def set_status_def vector_at_def
          pqueue_insert_def lf_mutex_lock_def set_mutex_def
          split: sum.splits if_splits option.splits)
    from trigger_inactive_result [OF True slot live, of w] assms Some True
    show ?thesis
      by (auto simp: trigger_waits_def set_status_def split: if_splits)
  qed
qed

lemma advance_tag_control:
  assumes "lf_sched_advance_tag_locked cfg env s = Inr (b, s')"
  shows "same_control s s'
       \<and> (lf_sched_executing_q_mutex s' = lf_sched_executing_q_mutex s
           \<or> lf_sched_executing_q_mutex s' = unlocked)"
proof (cases "fst (lf_sched_should_stop_locked s)")
  case True
  with assms show ?thesis
    by (auto simp: lf_sched_advance_tag_locked_def should_stop_locked_result same_control_def
        split: if_splits)
next
  case False
  define s1 where "s1 = snd (lf_sched_should_stop_locked s)"
  define s2 where "s2 = s1\<lparr>lf_logical_tag_completed := True\<rparr>"
  define s3 where "s3 = s2\<lparr>current_tag := next_current_tag (env s2),
          stop_tag := next_stop_tag (env s2), trace := trace s2 @ [NextLocked]\<rparr>"
  from False assms have all: "trigger_all cfg (next_reactions (env s2)) s3 = Inr s'"
    by (auto simp: lf_sched_advance_tag_locked_def lf_next_locked_def s3_def s2_def s1_def
        Let_def split_beta split: sum.splits)
  have "same_control s s3" "lf_sched_executing_q_mutex s3 = lf_sched_executing_q_mutex s"
    by (simp_all add: s3_def s2_def s1_def should_stop_locked_result same_control_def)
  with trigger_all_control [OF all] trigger_all_mutex [OF all] show ?thesis
    by (auto intro: same_control_trans)
qed

lemma distribute_control:
  assumes "lf_sched_distribute_ready_reactions_locked cfg s = Inr (k, s')"
  shows "same_control s s'
       \<and> lf_sched_executing_q_mutex s' = lf_sched_executing_q_mutex s
       \<and> (k \<noteq> 0 \<longrightarrow> (\<exists>n. pqueue_size (executing_q s') s' = Inr n \<and> n \<noteq> 0))"
  using assms
proof (induction cfg s rule: lf_sched_distribute_ready_reactions_locked.induct)
  case (1 cfg s)
  let ?n = "lf_sched_next_reaction_level s"
  show ?case
  proof (cases "?n \<le> max_level cfg")
    case False
    with "1.prems" have "k = 0" "s' = s"
      by (subst (asm) lf_sched_distribute_ready_reactions_locked.simps, simp)+
    then show ?thesis
      by simp
  next
    case True
    with "1.prems" obtain q where at: "vector_at s ?n = Inr q"
      by (subst (asm) lf_sched_distribute_ready_reactions_locked.simps)
         (auto split: sum.splits)
    let ?s1 = "s\<lparr>executing_q := q\<rparr>"
    from True at "1.prems" obtain n where size: "pqueue_size q ?s1 = Inr n"
      by (subst (asm) lf_sched_distribute_ready_reactions_locked.simps)
         (auto simp: Let_def split: sum.splits)
    let ?s2 = "?s1\<lparr>lf_sched_next_reaction_level := ?n + 1\<rparr>"
    show ?thesis
    proof (cases "n = 0")
      case False
      with True at size "1.prems" have "s' = ?s2"
        by (subst (asm) lf_sched_distribute_ready_reactions_locked.simps)
           (simp add: Let_def)
      moreover have "pqueue_size (executing_q ?s2) ?s2 = Inr n"
        using size by (simp add: pqueue_size_def)
      ultimately show ?thesis
        using False by (simp add: same_control_def)
    next
      case zero: True
      with True at size "1.prems"
      have rec: "lf_sched_distribute_ready_reactions_locked cfg ?s2 = Inr (k, s')"
        by (subst (asm) lf_sched_distribute_ready_reactions_locked.simps)
           (simp add: Let_def)
      have size': "pqueue_size (executing_q ?s1) ?s1 = Inr n"
        using size by simp
      have nz: "\<not> n \<noteq> 0"
        using zero by simp
      have rec': "lf_sched_distribute_ready_reactions_locked cfg
          (?s1\<lparr>lf_sched_next_reaction_level := lf_sched_next_reaction_level ?s1 + 1\<rparr>)
          = Inr (k, s')"
        using rec by simp
      from "1.IH" [OF True at refl size' nz rec'] show ?thesis
        by (simp add: same_control_def)
    qed
  qed
qed

lemma done_control:
  assumes "lf_sched_done_with_reaction w r s = Inr s'"
  shows "same_control s s' \<and> lf_sched_executing_q_mutex s' = lf_sched_executing_q_mutex s"
  using assms
  by (auto simp: lf_sched_done_with_reaction_def same_control_def set_status_def
      lf_bool_compare_and_swap_def split: option.splits if_splits)

lemma idle_workers_finite [simp]: "finite (idle_workers c)"
  by (simp add: idle_workers_def)

lemma idle_workers_card_le:
  "card (idle_workers c) \<le> unat (lf_sched_number_of_workers (shared c))"
proof -
  have "idle_workers c \<subseteq> {..<unat (lf_sched_number_of_workers (shared c))}"
    by (auto simp: idle_workers_def)
  then have "card (idle_workers c) \<le> card {..<unat (lf_sched_number_of_workers (shared c))}"
    by (intro card_mono) simp_all
  then show ?thesis
    by simp
qed

lemma idle_workers_all:
  assumes "card (idle_workers c) = unat (lf_sched_number_of_workers (shared c))"
      and "i < unat (lf_sched_number_of_workers (shared c))"
  shows "counted_idle (pcs c i)"
proof -
  have sub: "idle_workers c \<subseteq> {..<unat (lf_sched_number_of_workers (shared c))}"
    by (auto simp: idle_workers_def)
  have "idle_workers c = {..<unat (lf_sched_number_of_workers (shared c))}"
    using sub assms(1) by (intro card_subset_eq) simp_all
  with assms(2) show ?thesis
    by (auto simp: idle_workers_def)
qed

lemma idle_workers_same:
  assumes "lf_sched_number_of_workers s' = lf_sched_number_of_workers (shared c)"
      and "counted_idle p' = counted_idle (pcs c i)"
  shows "idle_workers \<lparr>shared = s', pcs = (pcs c)(i := p')\<rparr> = idle_workers c"
  using assms by (auto simp: idle_workers_def)

lemma idle_workers_enter:
  assumes "lf_sched_number_of_workers s' = lf_sched_number_of_workers (shared c)"
      and "i < unat (lf_sched_number_of_workers (shared c))"
      and "\<not> counted_idle (pcs c i)" and "counted_idle p'"
  shows "card (idle_workers \<lparr>shared = s', pcs = (pcs c)(i := p')\<rparr>)
           = Suc (card (idle_workers c))"
proof -
  have "idle_workers \<lparr>shared = s', pcs = (pcs c)(i := p')\<rparr> = insert i (idle_workers c)"
    using assms by (auto simp: idle_workers_def)
  moreover have "i \<notin> idle_workers c"
    using assms by (simp add: idle_workers_def)
  ultimately show ?thesis
    by simp
qed

lemma idle_workers_leave:
  assumes "lf_sched_number_of_workers s' = lf_sched_number_of_workers (shared c)"
      and "i < unat (lf_sched_number_of_workers (shared c))"
      and "counted_idle (pcs c i)" and "\<not> counted_idle p'"
  shows "Suc (card (idle_workers \<lparr>shared = s', pcs = (pcs c)(i := p')\<rparr>))
           = card (idle_workers c)"
proof -
  have "idle_workers \<lparr>shared = s', pcs = (pcs c)(i := p')\<rparr> = idle_workers c - {i}"
    using assms by (auto simp: idle_workers_def)
  moreover have "i \<in> idle_workers c"
    using assms by (simp add: idle_workers_def)
  ultimately show ?thesis
    using card_Suc_Diff1 [of "idle_workers c" i] by simp
qed

text \<open>While a worker advances, every other worker waits and no permit is left.\<close>

lemma advancing_freezes:
  assumes acc: "accounting c"
      and i: "i < unat (lf_sched_number_of_workers (shared c))"
      and adv: "advancing (pcs c i)"
  shows "lf_sched_semaphore (shared c) = Some 0
       \<and> lf_sched_number_of_idle_workers (shared c) = lf_sched_number_of_workers (shared c)
       \<and> \<not> lf_sched_should_stop (shared c)
       \<and> card (idle_workers c) = unat (lf_sched_number_of_workers (shared c))
       \<and> (\<forall>j < unat (lf_sched_number_of_workers (shared c)). j \<noteq> i \<longrightarrow> pcs c j = at_acquire)"
proof -
  let ?s = "shared c"
  let ?N = "unat (lf_sched_number_of_workers ?s)"
  from acc i adv have full: "lf_sched_number_of_idle_workers ?s = lf_sched_number_of_workers ?s"
    and nstop: "\<not> lf_sched_should_stop ?s"
    and uniq: "\<forall>j < ?N. advancing (pcs c j) \<longrightarrow> j = i"
    by (auto simp: accounting_def)
  from acc nstop obtain permits where sem: "lf_sched_semaphore ?s = Some permits"
    and sum: "unat (lf_sched_number_of_idle_workers ?s) + unat permits = card (idle_workers c)"
    by (auto simp: accounting_def)
  from sum full idle_workers_card_le [of c] have "unat permits = 0" and
    card: "card (idle_workers c) = ?N"
    by simp_all
  then have "permits = 0"
    by (simp add: unat_eq_0)
  moreover have "pcs c j = at_acquire" if "j < ?N" "j \<noteq> i" for j
  proof -
    from idle_workers_all [OF card that(1)] have "counted_idle (pcs c j)" .
    moreover from uniq that have "\<not> advancing (pcs c j)"
      by auto
    ultimately show ?thesis
      by (simp add: counted_idle_def)
  qed
  ultimately show ?thesis
    using sem full nstop card by simp
qed

lemma accounting_no_advancer:
  assumes acc: "accounting c"
      and i: "i < unat (lf_sched_number_of_workers (shared c))"
      and busy: "\<not> counted_idle (pcs c i)"
      and j: "j < unat (lf_sched_number_of_workers (shared c))"
  shows "\<not> advancing (pcs c j)"
proof
  assume adv: "advancing (pcs c j)"
  from busy have "pcs c i \<noteq> at_acquire" and "\<not> advancing (pcs c i)"
    by (auto simp: counted_idle_def)
  with adv have "i \<noteq> j"
    by auto
  with advancing_freezes [OF acc j adv] i have "pcs c i = at_acquire"
    by simp
  with \<open>pcs c i \<noteq> at_acquire\<close> show False
    by simp
qed

text \<open>A statement of a busy worker that leaves the counters alone.\<close>

lemma busy_step_accounting:
  assumes acc: "accounting c"
      and i: "i < unat (lf_sched_number_of_workers (shared c))"
      and ctl: "same_control (shared c) s'"
      and busy: "\<not> counted_idle (pcs c i)"
      and busy': "\<not> counted_idle p'"
      and stop: "lf_sched_should_stop (shared c) \<longrightarrow> stopping (pcs c i) \<longrightarrow> stopping p'"
      and mtx: "(in_critical p' = in_critical (pcs c i)
                  \<and> (lf_sched_executing_q_mutex s' = locked)
                      = (lf_sched_executing_q_mutex (shared c) = locked))
              \<or> (\<not> in_critical (pcs c i) \<and> in_critical p'
                  \<and> lf_sched_executing_q_mutex (shared c) \<noteq> locked
                  \<and> lf_sched_executing_q_mutex s' = locked)
              \<or> (in_critical (pcs c i) \<and> \<not> in_critical p'
                  \<and> lf_sched_executing_q_mutex s' \<noteq> locked)"
  shows "accounting \<lparr>shared = s', pcs = (pcs c)(i := p')\<rparr>"
proof -
  let ?s = "shared c"
  let ?N = "unat (lf_sched_number_of_workers ?s)"
  let ?c' = "\<lparr>shared = s', pcs = (pcs c)(i := p')\<rparr>"
  from ctl have nw: "lf_sched_number_of_workers s' = lf_sched_number_of_workers ?s"
    and ni: "lf_sched_number_of_idle_workers s' = lf_sched_number_of_idle_workers ?s"
    and sm: "lf_sched_semaphore s' = lf_sched_semaphore ?s"
    and st: "lf_sched_should_stop s' = lf_sched_should_stop ?s"
    by (simp_all add: same_control_def)
  have idle: "idle_workers ?c' = idle_workers c"
    using nw busy busy' by (intro idle_workers_same) simp_all
  have noadv: "\<not> advancing (pcs ?c' j)" if "j < ?N" for j
  proof (cases "j = i")
    case True
    with busy' show ?thesis
      by (simp add: counted_idle_def)
  next
    case False
    with accounting_no_advancer [OF acc i busy that] show ?thesis
      by simp
  qed
  have nonotify: "pcs ?c' j \<noteq> at_notify" if "j < ?N" for j
    using noadv [OF that] by auto
  have p1: "\<exists>permits. lf_sched_semaphore s' = Some permits
         \<and> (\<not> lf_sched_should_stop s' \<longrightarrow>
              unat (lf_sched_number_of_idle_workers s') + unat permits
                = card (idle_workers ?c'))"
    using acc by (simp add: accounting_def idle nw ni sm st)
  have p3: "lf_sched_should_stop s' \<longrightarrow>
            lf_sched_number_of_idle_workers s' = lf_sched_number_of_workers s'
            \<and> (\<forall>j < ?N. stopping (pcs ?c' j))"
    using acc stop i by (auto simp: accounting_def nw ni st)
  from acc have m1: "(lf_sched_executing_q_mutex ?s = locked)
            = (\<exists>j < ?N. in_critical (pcs c j))"
    and m2: "\<forall>k < ?N. in_critical (pcs c k) \<longrightarrow> (\<forall>j < ?N. in_critical (pcs c j) \<longrightarrow> j = k)"
    by (simp_all add: accounting_def)
  have others: "(\<exists>j < ?N. in_critical (pcs ?c' j))
       = (in_critical p' \<or> (\<exists>j < ?N. j \<noteq> i \<and> in_critical (pcs c j)))"
    using i by auto
  have split: "(\<exists>j < ?N. in_critical (pcs c j))
       = (in_critical (pcs c i) \<or> (\<exists>j < ?N. j \<noteq> i \<and> in_critical (pcs c j)))"
    using i by auto
  have alone: "\<not> (\<exists>j < ?N. j \<noteq> i \<and> in_critical (pcs c j))" if "in_critical (pcs c i)"
    using m2 i that by blast
  have p5: "(lf_sched_executing_q_mutex s' = locked) = (\<exists>j < ?N. in_critical (pcs ?c' j))"
    unfolding others
  proof -
    from mtx consider
      (same) "in_critical p' = in_critical (pcs c i)"
        "(lf_sched_executing_q_mutex s' = locked) = (lf_sched_executing_q_mutex ?s = locked)"
      | (take) "\<not> in_critical (pcs c i)" "in_critical p'"
        "lf_sched_executing_q_mutex ?s \<noteq> locked" "lf_sched_executing_q_mutex s' = locked"
      | (give) "in_critical (pcs c i)" "\<not> in_critical p'"
        "lf_sched_executing_q_mutex s' \<noteq> locked"
      by blast
    then show "(lf_sched_executing_q_mutex s' = locked)
        = (in_critical p' \<or> (\<exists>j < ?N. j \<noteq> i \<and> in_critical (pcs c j)))"
    proof cases
      case same
      then show ?thesis
        using m1 split by simp
    next
      case take
      then show ?thesis
        by simp
    next
      case give
      then show ?thesis
        using alone by simp
    qed
  qed
  have p6: "\<forall>k < ?N. in_critical (pcs ?c' k) \<longrightarrow>
              (\<forall>j < ?N. in_critical (pcs ?c' j) \<longrightarrow> j = k)"
  proof (intro allI impI)
    fix k j
    assume k: "k < ?N" "in_critical (pcs ?c' k)" and j: "j < ?N" "in_critical (pcs ?c' j)"
    have only: "\<not> (\<exists>l < ?N. l \<noteq> i \<and> in_critical (pcs c l))" if "in_critical p'"
    proof -
      from mtx that consider "in_critical (pcs c i)"
        | "lf_sched_executing_q_mutex ?s \<noteq> locked"
        by blast
      then show ?thesis
      proof cases
        case 1
        then show ?thesis by (rule alone)
      next
        case 2
        with m1 show ?thesis by blast
      qed
    qed
    show "j = k"
    proof (cases "k = i")
      case True
      with k have "in_critical p'" by simp
      from only [OF this] j show ?thesis
        using True by (cases "j = i") auto
    next
      case False
      with k have ck: "in_critical (pcs c k)" by simp
      show ?thesis
      proof (cases "j = i")
        case True
        with j have "in_critical p'" by simp
        from only [OF this] k ck False show ?thesis
          by blast
      next
        case jf: False
        with j have "in_critical (pcs c j)" by simp
        with m2 k(1) ck j(1) show ?thesis
          by blast
      qed
    qed
  qed
  show ?thesis
    unfolding accounting_def
    using p1 p3 p5 p6 noadv nonotify by (simp add: nw)
qed

lemma advancing_not_critical: "advancing p \<Longrightarrow> \<not> in_critical p"
  by (cases p) auto

text \<open>A statement of the advancing worker that leaves the counters alone.\<close>

lemma advancing_step_accounting:
  assumes acc: "accounting c"
      and i: "i < unat (lf_sched_number_of_workers (shared c))"
      and adv: "advancing (pcs c i)"
      and adv': "advancing p'"
      and ctl: "same_control (shared c) s'"
      and mtx: "lf_sched_executing_q_mutex s' = lf_sched_executing_q_mutex (shared c)
                \<or> lf_sched_executing_q_mutex s' = unlocked"
      and size: "p' = at_notify \<longrightarrow>
                  (\<exists>k. pqueue_size (executing_q s') s' = Inr k \<and> k \<noteq> 0)"
  shows "accounting \<lparr>shared = s', pcs = (pcs c)(i := p')\<rparr>"
proof -
  let ?s = "shared c"
  let ?N = "unat (lf_sched_number_of_workers ?s)"
  let ?c' = "\<lparr>shared = s', pcs = (pcs c)(i := p')\<rparr>"
  from ctl have nw: "lf_sched_number_of_workers s' = lf_sched_number_of_workers ?s"
    and ni: "lf_sched_number_of_idle_workers s' = lf_sched_number_of_idle_workers ?s"
    and sm: "lf_sched_semaphore s' = lf_sched_semaphore ?s"
    and st: "lf_sched_should_stop s' = lf_sched_should_stop ?s"
    by (simp_all add: same_control_def)
  from advancing_freezes [OF acc i adv]
  have full: "lf_sched_number_of_idle_workers ?s = lf_sched_number_of_workers ?s"
    and nstop: "\<not> lf_sched_should_stop ?s"
    and rest: "\<forall>j < ?N. j \<noteq> i \<longrightarrow> pcs c j = at_acquire"
    by simp_all
  have idle: "idle_workers ?c' = idle_workers c"
    using nw adv adv' by (intro idle_workers_same) (simp_all add: counted_idle_def)
  have p1: "\<exists>permits. lf_sched_semaphore s' = Some permits
         \<and> (\<not> lf_sched_should_stop s' \<longrightarrow>
              unat (lf_sched_number_of_idle_workers s') + unat permits
                = card (idle_workers ?c'))"
    using acc by (simp add: accounting_def idle nw ni sm st)
  have p2: "\<forall>k < ?N. advancing (pcs ?c' k) \<longrightarrow>
              lf_sched_number_of_idle_workers s' = lf_sched_number_of_workers s'
              \<and> \<not> lf_sched_should_stop s'
              \<and> (\<forall>j < ?N. advancing (pcs ?c' j) \<longrightarrow> j = k)"
    using rest full nstop by (auto simp: nw ni st)
  have p4: "\<forall>k < ?N. pcs ?c' k = at_notify \<longrightarrow>
              (\<exists>n. pqueue_size (executing_q s') s' = Inr n \<and> n \<noteq> 0)"
    using rest size by auto
  have nocrit: "\<not> in_critical (pcs c j)" if "j < ?N" for j
    using rest advancing_not_critical [OF adv] that by (cases "j = i") auto
  then have "lf_sched_executing_q_mutex ?s \<noteq> locked"
    using acc by (auto simp: accounting_def)
  with mtx have unl: "lf_sched_executing_q_mutex s' \<noteq> locked"
    by auto
  have nocrit': "\<not> in_critical (pcs ?c' j)" if "j < ?N" for j
    using nocrit [OF that] advancing_not_critical [OF adv'] by (cases "j = i") auto
  show ?thesis
    unfolding accounting_def
    using p1 p2 p4 nstop unl nocrit' by (simp add: nw st)
qed

text \<open>Line 305: the worker counts itself idle and is elected or goes to wait.\<close>

lemma fetch_add_accounting:
  assumes acc: "accounting c"
      and i: "i < unat (lf_sched_number_of_workers (shared c))"
      and pc: "pcs c i = at_fetch_add"
  shows "accounting
     \<lparr>shared = (shared c)\<lparr>lf_sched_number_of_idle_workers :=
                   lf_sched_number_of_idle_workers (shared c) + 1\<rparr>,
      pcs = (pcs c)(i := if lf_sched_number_of_idle_workers (shared c)
                              = lf_sched_number_of_workers (shared c) - 1
                         then at_advance else at_acquire)\<rparr>"
proof -
  let ?s = "shared c"
  let ?N = "unat (lf_sched_number_of_workers ?s)"
  let ?s' = "?s\<lparr>lf_sched_number_of_idle_workers := lf_sched_number_of_idle_workers ?s + 1\<rparr>"
  let ?p' = "if lf_sched_number_of_idle_workers ?s = lf_sched_number_of_workers ?s - 1
             then at_advance else at_acquire"
  let ?c' = "\<lparr>shared = ?s', pcs = (pcs c)(i := ?p')\<rparr>"
  from pc have busy: "\<not> counted_idle (pcs c i)"
    by (simp add: counted_idle_def)
  have nostop: "\<not> lf_sched_should_stop ?s"
  proof
    assume "lf_sched_should_stop ?s"
    with acc i have "stopping (pcs c i)"
      by (auto simp: accounting_def)
    with pc show False by simp
  qed
  from acc nostop obtain permits where sem: "lf_sched_semaphore ?s = Some permits"
    and sum: "unat (lf_sched_number_of_idle_workers ?s) + unat permits = card (idle_workers c)"
    by (auto simp: accounting_def)
  have cnt: "counted_idle ?p'"
    by (simp add: counted_idle_def)
  have card': "card (idle_workers ?c') = Suc (card (idle_workers c))"
    using i busy cnt by (intro idle_workers_enter) simp_all
  have "i \<notin> idle_workers c"
    using busy by (simp add: idle_workers_def)
  moreover have "idle_workers c \<subseteq> {..<?N}"
    by (auto simp: idle_workers_def)
  ultimately have "idle_workers c \<subseteq> {..<?N} - {i}"
    by auto
  then have "card (idle_workers c) \<le> card ({..<?N} - {i})"
    by (intro card_mono) simp_all
  with i have lt: "card (idle_workers c) < ?N"
    by simp
  with sum have small: "unat (lf_sched_number_of_idle_workers ?s) < ?N"
    by simp
  have "?N < 2 ^ 64"
    using unsigned_less [of "lf_sched_number_of_workers ?s", where 'a = nat] by simp
  with small have inc: "unat (lf_sched_number_of_idle_workers ?s + 1)
      = Suc (unat (lf_sched_number_of_idle_workers ?s))"
    by (simp add: unat_word_ariths)
  have p1: "\<exists>permits. lf_sched_semaphore ?s' = Some permits
         \<and> (\<not> lf_sched_should_stop ?s' \<longrightarrow>
              unat (lf_sched_number_of_idle_workers ?s') + unat permits
                = card (idle_workers ?c'))"
    using sem sum card' inc by simp
  have noadv: "\<not> advancing (pcs c j)" if "j < ?N" for j
    using accounting_no_advancer [OF acc i busy that] .
  have p2: "\<forall>k < ?N. advancing (pcs ?c' k) \<longrightarrow>
              lf_sched_number_of_idle_workers ?s' = lf_sched_number_of_workers ?s'
              \<and> \<not> lf_sched_should_stop ?s'
              \<and> (\<forall>j < ?N. advancing (pcs ?c' j) \<longrightarrow> j = k)"
    using noadv nostop by (auto split: if_splits)
  have nonotify: "pcs c j \<noteq> at_notify" if "j < ?N" for j
    using noadv [OF that] by auto
  have p4: "\<forall>k < ?N. pcs ?c' k = at_notify \<longrightarrow>
              (\<exists>n. pqueue_size (executing_q ?s') ?s' = Inr n \<and> n \<noteq> 0)"
    using nonotify by (auto split: if_splits)
  from acc have m1: "(lf_sched_executing_q_mutex ?s = locked)
            = (\<exists>j < ?N. in_critical (pcs c j))"
    and m2: "\<forall>k < ?N. in_critical (pcs c k) \<longrightarrow> (\<forall>j < ?N. in_critical (pcs c j) \<longrightarrow> j = k)"
    by (simp_all add: accounting_def)
  have crit: "in_critical (pcs ?c' j) = in_critical (pcs c j)" for j
    using pc by simp
  show ?thesis
    unfolding accounting_def crit
    using p1 p2 p4 nostop m1 m2 by simp
qed

lemma unat_pred:
  assumes "(k :: size_t) \<noteq> 0"
  shows "Suc (unat (k - 1)) = unat k"
proof -
  from assms have "unat k \<noteq> 0"
    by (simp add: unat_eq_0)
  moreover from assms have "unat (k - 1) = unat k - 1"
    by (rule unat_minus_one)
  ultimately show ?thesis
    by simp
qed

text \<open>Line 314: a waiting worker takes a permit.\<close>

lemma acquire_accounting:
  assumes acc: "accounting c"
      and i: "i < unat (lf_sched_number_of_workers (shared c))"
      and pc: "pcs c i = at_acquire"
      and acq: "lf_semaphore_acquire (shared c) = Some s'"
  shows "accounting \<lparr>shared = s', pcs = (pcs c)(i := at_head)\<rparr>"
proof -
  let ?s = "shared c"
  let ?N = "unat (lf_sched_number_of_workers ?s)"
  let ?c' = "\<lparr>shared = s', pcs = (pcs c)(i := at_head)\<rparr>"
  from acq obtain k where sem: "lf_sched_semaphore ?s = Some k" and k: "k \<noteq> 0"
    and s': "s' = ?s\<lparr>lf_sched_semaphore := Some (k - 1), trace := trace ?s @ [SemaphoreAcquire]\<rparr>"
    by (auto simp: lf_semaphore_acquire_def split: option.splits if_splits)
  from k have dec: "Suc (unat (k - 1)) = unat k"
    by (rule unat_pred)
  have cnt: "counted_idle (pcs c i)"
    using pc by (simp add: counted_idle_def)
  have card': "Suc (card (idle_workers ?c')) = card (idle_workers c)"
    using i cnt by (intro idle_workers_leave) (simp_all add: s' counted_idle_def)
  have noadv: "\<not> advancing (pcs c j)" if "j < ?N" for j
  proof
    assume "advancing (pcs c j)"
    from advancing_freezes [OF acc that this] sem k show False
      by simp
  qed
  have nonotify: "pcs c j \<noteq> at_notify" if "j < ?N" for j
    using noadv [OF that] by auto
  have p1: "\<exists>permits. lf_sched_semaphore s' = Some permits
         \<and> (\<not> lf_sched_should_stop s' \<longrightarrow>
              unat (lf_sched_number_of_idle_workers s') + unat permits
                = card (idle_workers ?c'))"
  proof -
    have "unat (lf_sched_number_of_idle_workers ?s) + unat (k - 1)
                = card (idle_workers ?c')" if "\<not> lf_sched_should_stop ?s"
    proof -
      from acc that sem
      have "unat (lf_sched_number_of_idle_workers ?s) + unat k = card (idle_workers c)"
        by (auto simp: accounting_def)
      with dec card' show ?thesis
        by simp
    qed
    then show ?thesis
      by (simp add: s')
  qed
  have p2: "\<forall>k < ?N. \<not> advancing (pcs ?c' k)"
    using noadv by auto
  have p3: "lf_sched_should_stop s' \<longrightarrow>
            lf_sched_number_of_idle_workers s' = lf_sched_number_of_workers s'
            \<and> (\<forall>j < ?N. stopping (pcs ?c' j))"
    using acc by (auto simp: accounting_def s')
  have p4: "\<forall>k < ?N. pcs ?c' k \<noteq> at_notify"
    using nonotify by auto
  from acc have m1: "(lf_sched_executing_q_mutex ?s = locked)
            = (\<exists>j < ?N. in_critical (pcs c j))"
    and m2: "\<forall>k < ?N. in_critical (pcs c k) \<longrightarrow> (\<forall>j < ?N. in_critical (pcs c j) \<longrightarrow> j = k)"
    by (simp_all add: accounting_def)
  have crit: "in_critical (pcs ?c' j) = in_critical (pcs c j)" for j
    using pc by simp
  have nw: "lf_sched_number_of_workers s' = lf_sched_number_of_workers ?s"
    and mx: "lf_sched_executing_q_mutex s' = lf_sched_executing_q_mutex ?s"
    by (simp_all add: s')
  show ?thesis
    unfolding accounting_def crit
    using p1 p2 p3 p4 m1 m2 by (simp add: nw mx)
qed

text \<open>Line 279: the advancing worker signals the stop.\<close>

lemma signal_stop_accounting:
  assumes acc: "accounting c"
      and i: "i < unat (lf_sched_number_of_workers (shared c))"
      and pc: "pcs c i = at_signal_stop"
      and sig: "lf_sched_signal_stop (shared c) = Inr s'"
  shows "accounting \<lparr>shared = s', pcs = (pcs c)(i := at_unlock_stop)\<rparr>"
proof -
  let ?s = "shared c"
  let ?N = "unat (lf_sched_number_of_workers ?s)"
  let ?c' = "\<lparr>shared = s', pcs = (pcs c)(i := at_unlock_stop)\<rparr>"
  have adv: "advancing (pcs c i)"
    using pc by simp
  from advancing_freezes [OF acc i adv]
  have sem: "lf_sched_semaphore ?s = Some 0"
    and full: "lf_sched_number_of_idle_workers ?s = lf_sched_number_of_workers ?s"
    and rest: "\<forall>j < ?N. j \<noteq> i \<longrightarrow> pcs c j = at_acquire"
    by simp_all
  from sig sem have s': "s' = ?s\<lparr>lf_sched_should_stop := True,
      lf_sched_semaphore := Some (lf_sched_number_of_workers ?s - 1),
      trace := trace ?s @ [SemaphoreRelease (lf_sched_number_of_workers ?s - 1)]\<rparr>"
    by (simp add: lf_sched_signal_stop_def lf_semaphore_release_def)
  have pcs': "pcs ?c' j = at_acquire \<or> pcs ?c' j = at_unlock_stop" if "j < ?N" for j
    using rest that by (cases "j = i") auto
  have p2: "\<not> advancing (pcs ?c' j)" if "j < ?N" for j
    using pcs' [OF that] by auto
  have p3: "stopping (pcs ?c' j)" if "j < ?N" for j
    using pcs' [OF that] by auto
  have p4: "pcs ?c' j \<noteq> at_notify" if "j < ?N" for j
    using pcs' [OF that] by auto
  have p6: "\<not> in_critical (pcs ?c' j)" if "j < ?N" for j
    using pcs' [OF that] by auto
  have "\<not> in_critical (pcs c j)" if "j < ?N" for j
    using rest pc that by (cases "j = i") auto
  with acc have "lf_sched_executing_q_mutex ?s \<noteq> locked"
    by (auto simp: accounting_def)
  then have p5: "lf_sched_executing_q_mutex s' \<noteq> locked"
    by (simp add: s')
  have nw: "lf_sched_number_of_workers s' = lf_sched_number_of_workers ?s"
    and st: "lf_sched_should_stop s'"
    and ni: "lf_sched_number_of_idle_workers s' = lf_sched_number_of_workers ?s"
    and sm: "lf_sched_semaphore s' = Some (lf_sched_number_of_workers ?s - 1)"
    using full by (simp_all add: s')
  show ?thesis
    unfolding accounting_def
    using p2 p3 p4 p5 p6 by (simp add: nw st ni sm)
qed

lemma notify_workers_result:
  assumes size: "pqueue_size (executing_q s) s = Inr k"
      and sem: "lf_sched_semaphore s = Some c"
  shows "lf_sched_notify_workers s =
     Inr (if min (lf_sched_number_of_idle_workers s) k > 1
          then s\<lparr>lf_sched_number_of_idle_workers :=
                   lf_sched_number_of_idle_workers s - min (lf_sched_number_of_idle_workers s) k,
                 lf_sched_semaphore := Some (c + (min (lf_sched_number_of_idle_workers s) k - 1)),
                 trace := trace s @
                   [SemaphoreRelease (min (lf_sched_number_of_idle_workers s) k - 1)]\<rparr>
          else s\<lparr>lf_sched_number_of_idle_workers :=
                   lf_sched_number_of_idle_workers s
                     - min (lf_sched_number_of_idle_workers s) k\<rparr>)"
  using assms
  by (simp add: lf_sched_notify_workers_def MIN_size_t_min Let_def lf_semaphore_release_def)

text \<open>Line 287: the advancing worker wakes the others and leaves the idle count.\<close>

lemma notify_accounting:
  assumes acc: "accounting c"
      and i: "i < unat (lf_sched_number_of_workers (shared c))"
      and pc: "pcs c i = at_notify"
      and ntf: "lf_sched_notify_workers (shared c) = Inr s'"
  shows "accounting \<lparr>shared = s', pcs = (pcs c)(i := at_head)\<rparr>"
proof -
  let ?s = "shared c"
  let ?n = "lf_sched_number_of_workers ?s"
  let ?N = "unat ?n"
  let ?c' = "\<lparr>shared = s', pcs = (pcs c)(i := at_head)\<rparr>"
  have adv: "advancing (pcs c i)"
    using pc by simp
  from advancing_freezes [OF acc i adv]
  have sem: "lf_sched_semaphore ?s = Some 0"
    and full: "lf_sched_number_of_idle_workers ?s = ?n"
    and nstop: "\<not> lf_sched_should_stop ?s"
    and card: "card (idle_workers c) = ?N"
    and rest: "\<forall>j < ?N. j \<noteq> i \<longrightarrow> pcs c j = at_acquire"
    by simp_all
  from acc i pc obtain k where size: "pqueue_size (executing_q ?s) ?s = Inr k" and k: "k \<noteq> 0"
    by (auto simp: accounting_def)
  define w where "w = min ?n k"
  from i have "?n \<noteq> 0"
    by (metis not_less0 unat_0)
  with k have w0: "w \<noteq> 0"
    by (simp add: w_def min_def)
  have wle: "w \<le> ?n"
    by (simp add: w_def)
  have "lf_sched_notify_workers ?s = Inr (if w > 1
          then ?s\<lparr>lf_sched_number_of_idle_workers := ?n - w,
                 lf_sched_semaphore := Some (0 + (w - 1)),
                 trace := trace ?s @ [SemaphoreRelease (w - 1)]\<rparr>
          else ?s\<lparr>lf_sched_number_of_idle_workers := ?n - w\<rparr>)"
    using notify_workers_result [OF size sem] unfolding full w_def [symmetric] .
  with ntf
  have s': "s' = (if w > 1
          then ?s\<lparr>lf_sched_number_of_idle_workers := ?n - w,
                 lf_sched_semaphore := Some (w - 1),
                 trace := trace ?s @ [SemaphoreRelease (w - 1)]\<rparr>
          else ?s\<lparr>lf_sched_number_of_idle_workers := ?n - w\<rparr>)"
    by (auto split: if_splits)
  have one: "w = 1" if "\<not> w > 1"
  proof -
    from that have "unat w \<le> 1"
      by (simp add: word_less_nat_alt)
    moreover from w0 have "unat w \<noteq> 0"
      by (simp add: unat_eq_0)
    ultimately have "unat w = unat (1 :: size_t)"
      by simp
    then show ?thesis
      by (simp only: word_unat_eq_iff)
  qed
  have sm: "lf_sched_semaphore s' = Some (w - 1)"
    using one sem by (auto simp: s')
  have ni: "lf_sched_number_of_idle_workers s' = ?n - w"
    by (simp add: s')
  have nw: "lf_sched_number_of_workers s' = ?n"
    and st: "lf_sched_should_stop s' = lf_sched_should_stop ?s"
    and mx: "lf_sched_executing_q_mutex s' = lf_sched_executing_q_mutex ?s"
    by (simp_all add: s')
  have u1: "unat (?n - w) = ?N - unat w"
    using wle by (rule unat_sub)
  from w0 have u2: "Suc (unat (w - 1)) = unat w"
    by (rule unat_pred)
  from wle have u3: "unat w \<le> ?N"
    by (simp add: word_le_nat_alt)
  have cnt: "counted_idle (pcs c i)"
    using pc by (simp add: counted_idle_def)
  have card': "Suc (card (idle_workers ?c')) = card (idle_workers c)"
    using i cnt nw by (intro idle_workers_leave) (simp_all add: counted_idle_def)
  have p1: "unat (lf_sched_number_of_idle_workers s') + unat (w - 1) = card (idle_workers ?c')"
    using u1 u2 u3 card card' ni by simp
  have pcs': "pcs ?c' j = at_acquire \<or> pcs ?c' j = at_head" if "j < ?N" for j
    using rest that by (cases "j = i") auto
  have p2: "\<not> advancing (pcs ?c' j)" if "j < ?N" for j
    using pcs' [OF that] by auto
  have p4: "pcs ?c' j \<noteq> at_notify" if "j < ?N" for j
    using pcs' [OF that] by auto
  have p6: "\<not> in_critical (pcs ?c' j)" if "j < ?N" for j
    using pcs' [OF that] by auto
  have "\<not> in_critical (pcs c j)" if "j < ?N" for j
    using rest pc that by (cases "j = i") auto
  with acc have "lf_sched_executing_q_mutex ?s \<noteq> locked"
    by (auto simp: accounting_def)
  then have p5: "lf_sched_executing_q_mutex s' \<noteq> locked"
    by (simp add: mx)
  show ?thesis
    unfolding accounting_def
    using p1 p2 p4 p5 p6 nstop by (simp add: nw st sm)
qed

lemma init_queues_control:
  "same_control s (lf_sched_init_queues cfg i s)
   \<and> lf_sched_executing_q_mutex (lf_sched_init_queues cfg i s) = lf_sched_executing_q_mutex s"
proof (induction cfg i s rule: lf_sched_init_queues.induct)
  case (1 cfg i s)
  show ?case
  proof (cases "i \<le> max_level cfg")
    case False
    then show ?thesis
      by (subst lf_sched_init_queues.simps, simp)+
  next
    case True
    obtain q s1 where init: "pqueue_init s = (q, s1)"
      by (cases "pqueue_init s")
    let ?s2 = "s1\<lparr>vector_of_reaction_qs := (vector_of_reaction_qs s1)[unat i := q]\<rparr>"
    have unfold: "lf_sched_init_queues cfg i s = lf_sched_init_queues cfg (i + 1) ?s2"
      using True init by (subst lf_sched_init_queues.simps) simp
    from init have "same_control s ?s2"
      and "lf_sched_executing_q_mutex ?s2 = lf_sched_executing_q_mutex s"
      by (auto simp: pqueue_init_def same_control_def Let_def)
    with "1.IH" [OF True refl init [symmetric]] show ?thesis
      unfolding unfold by (auto intro: same_control_trans)
  qed
qed

lemma init_control:
  "lf_sched_number_of_workers (lf_sched_init cfg n s) = n
   \<and> lf_sched_number_of_idle_workers (lf_sched_init cfg n s) = lf_sched_number_of_idle_workers s
   \<and> lf_sched_semaphore (lf_sched_init cfg n s) = Some 0
   \<and> \<not> lf_sched_should_stop (lf_sched_init cfg n s)
   \<and> lf_sched_executing_q_mutex (lf_sched_init cfg n s) = unlocked"
proof -
  let ?s2 = "(lf_semaphore_new 0 s)\<lparr>lf_sched_number_of_workers := n\<rparr>"
  let ?s3 = "lf_sched_init_queues cfg 0 ?s2"
  from init_queues_control [of ?s2 cfg 0]
  have "lf_sched_number_of_workers ?s3 = n"
    "lf_sched_number_of_idle_workers ?s3 = lf_sched_number_of_idle_workers s"
    "lf_sched_semaphore ?s3 = Some 0"
    by (simp_all add: same_control_def lf_semaphore_new_def)
  then show ?thesis
    by (simp add: lf_sched_init_def Let_def lf_mutex_init_def set_mutex_def)
qed

lemma start_accounting:
  assumes "trigger_all cfg rs (lf_sched_init cfg n (static_state cfg mem now stop)) = Inr s"
  shows "accounting \<lparr>shared = s, pcs = (\<lambda>i. at_head)\<rparr>"
proof -
  let ?s0 = "lf_sched_init cfg n (static_state cfg mem now stop)"
  let ?c = "\<lparr>shared = s, pcs = (\<lambda>i. at_head)\<rparr>"
  from init_control [of cfg n "static_state cfg mem now stop"]
  have i0: "lf_sched_number_of_idle_workers ?s0 = 0" "lf_sched_semaphore ?s0 = Some 0"
    "\<not> lf_sched_should_stop ?s0" "lf_sched_executing_q_mutex ?s0 = unlocked"
    by (simp_all add: static_state_def)
  from trigger_all_control [OF assms] i0
  have c: "lf_sched_number_of_idle_workers s = 0" "lf_sched_semaphore s = Some 0"
    "\<not> lf_sched_should_stop s"
    by (simp_all add: same_control_def)
  from trigger_all_mutex [OF assms] i0 have m: "lf_sched_executing_q_mutex s = unlocked"
    by auto
  have "idle_workers ?c = {}"
    by (simp add: idle_workers_def counted_idle_def)
  with c m show ?thesis
    by (simp add: accounting_def)
qed

lemma worker_step_accounting:
  assumes acc: "accounting c"
      and i: "i < unat (lf_sched_number_of_workers (shared c))"
      and ws: "worker_step cfg i (shared c, pcs c i) (s', p')"
  shows "accounting \<lparr>shared = s', pcs = (pcs c)(i := p')\<rparr>"
  using ws
proof (cases rule: worker_step.cases)
  case head_stop
  with acc i show ?thesis
    by (intro busy_step_accounting) (simp_all add: counted_idle_def)
next
  case head_continue
  with acc i show ?thesis
    by (intro busy_step_accounting) (simp_all add: counted_idle_def)
next
  case lock_executing_q
  with acc i show ?thesis
    by (intro busy_step_accounting)
       (simp_all add: counted_idle_def lf_mutex_lock_def set_mutex_def same_control_def)
next
  case (pop r)
  from pop_control [OF pop(3)] pop acc i show ?thesis
    by (intro busy_step_accounting) (simp_all add: counted_idle_def)
next
  case (unlock_executing_q r)
  with acc i show ?thesis
    by (intro busy_step_accounting)
       (simp_all add: counted_idle_def lf_mutex_unlock_def set_mutex_def same_control_def)
next
  case (fetch_add prev v)
  then have "prev = lf_sched_number_of_idle_workers (shared c)"
    "v = lf_sched_number_of_idle_workers (shared c) + 1"
    by (auto simp: lf_atomic_fetch_add_def)
  with fetch_add fetch_add_accounting [OF acc i] show ?thesis
    by simp
next
  case acquire
  with acquire_accounting [OF acc i] show ?thesis
    by simp
next
  case advance_reset
  with acc i show ?thesis
    by (intro advancing_step_accounting) (simp_all add: same_control_def)
next
  case advance_skip
  with acc i show ?thesis
    by (intro advancing_step_accounting) simp_all
next
  case lock_global
  with acc i show ?thesis
    by (intro advancing_step_accounting)
       (simp_all add: lf_mutex_lock_def set_mutex_def same_control_def)
next
  case (advance_tag env stop)
  from advance_tag_control [OF advance_tag(3)] advance_tag acc i show ?thesis
    by (intro advancing_step_accounting) simp_all
next
  case signal_stop
  with signal_stop_accounting [OF acc i] show ?thesis
    by simp
next
  case unlock_stop
  with acc i show ?thesis
    by (intro busy_step_accounting)
       (simp_all add: counted_idle_def lf_mutex_unlock_def set_mutex_def same_control_def)
next
  case unlock_global
  with acc i show ?thesis
    by (intro advancing_step_accounting)
       (simp_all add: lf_mutex_unlock_def set_mutex_def same_control_def)
next
  case (distribute k)
  from distribute_control [OF distribute(3)] distribute acc i show ?thesis
    by (intro advancing_step_accounting) auto
next
  case notify
  with notify_accounting [OF acc i] show ?thesis
    by simp
next
  case (body_trigger r a)
  from trigger_control [OF body_trigger(4)] trigger_mutex [OF body_trigger(4,3)]
    body_trigger acc i
  show ?thesis
    by (intro busy_step_accounting) (simp_all add: counted_idle_def)
next
  case (body_done a)
  from done_control [OF body_done(3)] body_done acc i show ?thesis
    by (intro busy_step_accounting) (simp_all add: counted_idle_def)
qed

lemma reachable_accounting:
  assumes "reachable cfg c"
  shows "accounting c"
  using assms
proof (induction rule: reachable.induct)
  case (start cfg rs n mem now stop s)
  then show ?case
    by (rule start_accounting)
next
  case (step cfg c c')
  from step.hyps(2) obtain i s' p' where
    "i < unat (lf_sched_number_of_workers (shared c))"
    "worker_step cfg i (shared c, pcs c i) (s', p')"
    "c' = \<lparr>shared = s', pcs = (pcs c)(i := p')\<rparr>"
    by (auto elim: system_step.cases)
  with worker_step_accounting [OF step.IH] show ?case
    by simp
qed

lemma accounting_sum:
  assumes "accounting c"
  shows "\<exists>permits. lf_sched_semaphore (shared c) = Some permits
         \<and> (\<not> lf_sched_should_stop (shared c) \<longrightarrow>
              unat (lf_sched_number_of_idle_workers (shared c)) + unat permits
                = card (idle_workers c))"
  using assms by (simp add: accounting_def)

lemma accounting_stopped:
  assumes "accounting c" and "lf_sched_should_stop (shared c)"
  shows "lf_sched_number_of_idle_workers (shared c) = lf_sched_number_of_workers (shared c)"
  using assms by (simp add: accounting_def)

lemma accounting_critical:
  assumes "accounting c"
      and "i < unat (lf_sched_number_of_workers (shared c))"
      and "in_critical (pcs c i)"
  shows "lf_sched_executing_q_mutex (shared c) = locked
            \<and> (\<forall>j < unat (lf_sched_number_of_workers (shared c)).
                  in_critical (pcs c j) \<longrightarrow> j = i)"
proof -
  from assms(1) have m1: "(lf_sched_executing_q_mutex (shared c) = locked)
            = (\<exists>j < unat (lf_sched_number_of_workers (shared c)). in_critical (pcs c j))"
    and m2: "\<forall>k < unat (lf_sched_number_of_workers (shared c)).
            in_critical (pcs c k) \<longrightarrow>
              (\<forall>j < unat (lf_sched_number_of_workers (shared c)).
                    in_critical (pcs c j) \<longrightarrow> j = k)"
    by (simp_all add: accounting_def)
  from m1 assms(2,3) have "lf_sched_executing_q_mutex (shared c) = locked"
    by blast
  moreover from m2 assms(2,3) have "\<forall>j < unat (lf_sched_number_of_workers (shared c)).
                  in_critical (pcs c j) \<longrightarrow> j = i"
    by blast
  ultimately show ?thesis
    by simp
qed

lemma example_start_reachable: "reachable example_cfg example_start"
proof -
  have inact: "status (reactions example_init 1) = inactive"
    by (simp add: example_init_eq example_reactions_def)
  have slot: "vector_at example_init
      (LEVEL example_cfg (index (reactions example_init 1))) = Inr 1"
    by (simp add: example_init_eq example_cfg_def example_reactions_def vector_at_def)
  have live: "pqueues example_init 1 = Some []"
    by (simp add: example_init_eq)
  have nolock: "\<not> insert_takes_lock example_cfg
      (LEVEL example_cfg (index (reactions example_init 1))) example_init"
    by (simp add: insert_takes_lock_def example_init_eq example_reactions_def example_cfg_def)
  have "lf_sched_trigger_reaction example_cfg (Some 1) (- 1) example_init = Inr example_triggered"
    using nolock
    by (subst trigger_inactive_result [OF inact slot live])
       (simp add: example_triggered_eq set_status_def example_init_eq)
  then have "trigger_all example_cfg [Some 1]
      (lf_sched_init example_cfg 2 (static_state example_cfg example_reactions tag0 tag1))
      = Inr example_triggered"
    by (simp add: example_init_def)
  then show ?thesis
    unfolding example_start_def by (rule reachable.start)
qed

lemma example_workers: "lf_sched_number_of_workers example_triggered = 2"
  by (simp add: example_triggered_eq example_init_eq)

lemma example_locked_reachable: "reachable example_cfg example_locked"
proof -
  let ?c1 = "\<lparr>shared = example_triggered, pcs = (\<lambda>i. at_head)(0 := at_lock)\<rparr>"
  have w: "(0 :: nat) < unat (lf_sched_number_of_workers (shared example_start))"
    by (simp add: example_start_def example_workers)
  have "worker_step example_cfg 0 (shared example_start, pcs example_start 0)
      (example_triggered, at_lock)"
    unfolding example_start_def
    by (simp add: example_triggered_eq example_init_eq worker_step.head_continue)
  from system_step.intros [OF w this] have "system_step example_cfg example_start ?c1"
    by (simp add: example_start_def)
  with example_start_reachable have r1: "reachable example_cfg ?c1"
    by (rule reachable.step)
  have w1: "(0 :: nat) < unat (lf_sched_number_of_workers (shared ?c1))"
    by (simp add: example_workers)
  have "lf_sched_executing_q_mutex example_triggered = unlocked"
    by (simp add: example_triggered_eq example_init_eq)
  then have "worker_step example_cfg 0 (shared ?c1, pcs ?c1 0)
      (lf_mutex_lock executing_q_mutex example_triggered, at_pop)"
    by (simp add: worker_step.lock_executing_q)
  from system_step.intros [OF w1 this] have "system_step example_cfg ?c1 example_locked"
    by (simp add: example_locked_def)
  with r1 show ?thesis
    by (rule reachable.step)
qed

lemma pqueue_pop_min:
  assumes "pqueue_pop q s = Inr (Some a, s')"
  shows "\<exists>rs. pqueues s q = Some rs \<and> a \<in> set rs
           \<and> (\<forall>b \<in> set rs. index (reactions s a) \<le> index (reactions s b))"
proof -
  from assms obtain rs where rs: "pqueues s q = Some rs" and ne: "rs \<noteq> []"
    and a: "a = arg_min_list (get_reaction_index s) rs"
    by (auto simp: pqueue_pop_def Let_def split: option.splits if_splits)
  from ne have "a \<in> set rs"
    unfolding a by (rule arg_min_list_in)
  moreover have "index (reactions s a) \<le> index (reactions s b)" if "b \<in> set rs" for b
  proof -
    from ne have "get_reaction_index s a = Min (get_reaction_index s ` set rs)"
      unfolding a by (rule f_arg_min_list_f)
    also have "\<dots> \<le> get_reaction_index s b"
      using that by simp
    finally show ?thesis
      by (simp add: get_reaction_index_def)
  qed
  ultimately show ?thesis
    using rs by blast
qed

lemma notify_workers_le:
  assumes "lf_sched_notify_workers s = Inr s'"
  shows "lf_sched_number_of_idle_workers s' \<le> lf_sched_number_of_idle_workers s"
proof -
  from assms obtain k where
    "lf_sched_number_of_idle_workers s'
      = lf_sched_number_of_idle_workers s - min (lf_sched_number_of_idle_workers s) k"
    by (auto simp: lf_sched_notify_workers_def MIN_size_t_min Let_def lf_semaphore_release_def
        split: sum.splits if_splits option.splits)
  moreover have "min (lf_sched_number_of_idle_workers s) k \<le> lf_sched_number_of_idle_workers s"
    by simp
  ultimately show ?thesis
    by (simp add: word_sub_le)
qed

section \<open>The worker loop: claims C8 and C9\<close>

text \<open>
  Claim C8. In every reachable system, for every statement a worker executes in
  \<open>lf_sched_get_ready_reaction\<close>: the function returns \<open>NULL\<close> only from the test of
  line 378, with \<open>_lf_sched_should_stop\<close> read as true in that very state; it returns
  a reaction only from the unlock of line 381, and the reaction is the value the
  worker holds from its pop; the pop of line 380 is \<open>pqueue_pop(executing_q)\<close>, and
  a reaction it yields is an element of \<open>executing_q\<close> whose index is the smallest in
  the queue at that moment; and a worker between its lock and its unlock finds the
  executing-queue mutex locked and is the only worker there.
\<close>

theorem C8_get_ready_reaction:
  assumes reach: "reachable cfg c"
      and i: "i < unat (lf_sched_number_of_workers (shared c))"
      and ws: "worker_step cfg i (shared c, pcs c i) (s', p')"
  shows "(p' = returned None \<longrightarrow>
            pcs c i = at_head \<and> lf_sched_should_stop (shared c) \<and> s' = shared c)
       \<and> (\<forall>a. p' = returned (Some a) \<and> pcs c i \<noteq> returned (Some a) \<longrightarrow>
            pcs c i = at_unlock (Some a)
            \<and> s' = lf_mutex_unlock executing_q_mutex (shared c))
       \<and> (\<forall>r. p' = at_unlock r \<longrightarrow>
            pcs c i = at_pop
            \<and> pqueue_pop (executing_q (shared c)) (shared c) = Inr (r, s')
            \<and> (\<forall>a. r = Some a \<longrightarrow>
                 (\<exists>rs. pqueues (shared c) (executing_q (shared c)) = Some rs
                    \<and> a \<in> set rs
                    \<and> (\<forall>b \<in> set rs. index (reactions (shared c) a)
                                      \<le> index (reactions (shared c) b)))))
       \<and> (in_critical (pcs c i) \<longrightarrow>
            lf_sched_executing_q_mutex (shared c) = locked
            \<and> (\<forall>j < unat (lf_sched_number_of_workers (shared c)).
                  in_critical (pcs c j) \<longrightarrow> j = i))"
proof -
  from reach have acc: "accounting c"
    by (rule reachable_accounting)
  have stop: "pcs c i = at_head \<and> lf_sched_should_stop (shared c) \<and> s' = shared c"
    if "p' = returned None"
    using ws that by (cases rule: worker_step.cases) (auto split: if_splits)
  have ret: "pcs c i = at_unlock (Some a) \<and> s' = lf_mutex_unlock executing_q_mutex (shared c)"
    if "p' = returned (Some a)" "pcs c i \<noteq> returned (Some a)" for a
    using ws that by (cases rule: worker_step.cases) (auto split: if_splits)
  have popped: "pcs c i = at_pop
            \<and> pqueue_pop (executing_q (shared c)) (shared c) = Inr (r, s')
            \<and> (\<forall>a. r = Some a \<longrightarrow>
                 (\<exists>rs. pqueues (shared c) (executing_q (shared c)) = Some rs
                    \<and> a \<in> set rs
                    \<and> (\<forall>b \<in> set rs. index (reactions (shared c) a)
                                      \<le> index (reactions (shared c) b))))"
    if "p' = at_unlock r" for r
  proof -
    from ws that have "pcs c i = at_pop"
      and "pqueue_pop (executing_q (shared c)) (shared c) = Inr (r, s')"
      by (cases rule: worker_step.cases; auto split: if_splits)+
    with pqueue_pop_min show ?thesis
      by blast
  qed
  have held: "in_critical (pcs c i) \<longrightarrow>
            lf_sched_executing_q_mutex (shared c) = locked
            \<and> (\<forall>j < unat (lf_sched_number_of_workers (shared c)).
                  in_critical (pcs c j) \<longrightarrow> j = i)"
    using accounting_critical [OF acc i] by blast
  have c1: "p' = returned None \<longrightarrow>
            pcs c i = at_head \<and> lf_sched_should_stop (shared c) \<and> s' = shared c"
    using stop by blast
  have c2: "\<forall>a. p' = returned (Some a) \<and> pcs c i \<noteq> returned (Some a) \<longrightarrow>
            pcs c i = at_unlock (Some a)
            \<and> s' = lf_mutex_unlock executing_q_mutex (shared c)"
    using ret by blast
  have c3: "\<forall>r. p' = at_unlock r \<longrightarrow>
            pcs c i = at_pop
            \<and> pqueue_pop (executing_q (shared c)) (shared c) = Inr (r, s')
            \<and> (\<forall>a. r = Some a \<longrightarrow>
                 (\<exists>rs. pqueues (shared c) (executing_q (shared c)) = Some rs
                    \<and> a \<in> set rs
                    \<and> (\<forall>b \<in> set rs. index (reactions (shared c) a)
                                      \<le> index (reactions (shared c) b))))"
    using popped by blast
  show ?thesis
    by (rule conjI [OF c1 conjI [OF c2 conjI [OF c3 held]]])
qed

theorem C8_get_ready_reaction_witness:
  "pcs example_locked 0 = at_pop
   \<and> lf_sched_executing_q_mutex (shared example_locked) = locked
   \<and> (\<exists>s'. pqueue_pop (executing_q (shared example_locked)) (shared example_locked)
          = Inr (Some 1, s'))
   \<and> (\<exists>rs. pqueues (shared example_locked) (executing_q (shared example_locked)) = Some rs
          \<and> 1 \<in> set rs)"
proof -
  let ?s = "shared example_locked"
  have q: "pqueues ?s (executing_q ?s) = Some [1]"
    by (simp add: example_locked_def lf_mutex_lock_def set_mutex_def example_triggered_eq
        example_init_eq)
  then obtain s' where pop: "pqueue_pop (executing_q ?s) ?s = Inr (Some 1, s')"
    by (simp add: pqueue_pop_def)
  have pc: "pcs example_locked 0 = at_pop"
    by (simp add: example_locked_def)
  have w: "(0 :: nat) < unat (lf_sched_number_of_workers ?s)"
    by (simp add: example_locked_def lf_mutex_lock_def set_mutex_def example_workers)
  have "worker_step example_cfg 0 (?s, at_pop) (s', at_unlock (Some 1))"
    using pop by (rule worker_step.pop)
  then have ws: "worker_step example_cfg 0 (?s, pcs example_locked 0) (s', at_unlock (Some 1))"
    by (simp add: pc)
  from C8_get_ready_reaction [OF example_locked_reachable w ws] pc pop show ?thesis
    by auto
qed

text \<open>
  Claim C9. In every reachable system the idle count is at most the number of
  workers (and, a \<open>size_t\<close>, at least 0). Until a stop is signalled, the idle count
  plus the permits of the semaphore is the number of workers that are waiting or
  advancing, each counted once, and there are at most as many of those as workers.
  \<open>_lf_sched_notify_workers\<close> never leaves a larger idle count than it found: what it
  subtracts is \<open>min(n_idle, k)\<close>.
\<close>

theorem C9_idle_workers_bounded:
  assumes reach: "reachable cfg c"
  shows "lf_sched_number_of_idle_workers (shared c) \<le> lf_sched_number_of_workers (shared c)
       \<and> (\<not> lf_sched_should_stop (shared c) \<longrightarrow>
            (\<exists>permits. lf_sched_semaphore (shared c) = Some permits
               \<and> unat (lf_sched_number_of_idle_workers (shared c)) + unat permits
                   = card (idle_workers c)))
       \<and> card (idle_workers c) \<le> unat (lf_sched_number_of_workers (shared c))
       \<and> (\<forall>s'. lf_sched_notify_workers (shared c) = Inr s' \<longrightarrow>
            lf_sched_number_of_idle_workers s' \<le> lf_sched_number_of_idle_workers (shared c))"
proof -
  from reach have acc: "accounting c"
    by (rule reachable_accounting)
  from accounting_sum [OF acc] obtain permits where
    sem: "lf_sched_semaphore (shared c) = Some permits" and
    sum: "\<not> lf_sched_should_stop (shared c) \<longrightarrow>
              unat (lf_sched_number_of_idle_workers (shared c)) + unat permits
                = card (idle_workers c)"
    by blast
  have bound: "lf_sched_number_of_idle_workers (shared c) \<le> lf_sched_number_of_workers (shared c)"
  proof (cases "lf_sched_should_stop (shared c)")
    case True
    with accounting_stopped [OF acc] show ?thesis
      by simp
  next
    case False
    with sum idle_workers_card_le [of c] show ?thesis
      by (simp add: word_le_nat_alt)
  qed
  moreover from sem sum have "\<not> lf_sched_should_stop (shared c) \<longrightarrow>
            (\<exists>permits. lf_sched_semaphore (shared c) = Some permits
               \<and> unat (lf_sched_number_of_idle_workers (shared c)) + unat permits
                   = card (idle_workers c))"
    by simp
  moreover note idle_workers_card_le [of c]
  moreover have "\<forall>s'. lf_sched_notify_workers (shared c) = Inr s' \<longrightarrow>
            lf_sched_number_of_idle_workers s' \<le> lf_sched_number_of_idle_workers (shared c)"
    using notify_workers_le by blast
  ultimately show ?thesis
    by (intro conjI)
qed

theorem C9_idle_workers_bounded_witness:
  "lf_sched_number_of_idle_workers (shared example_locked)
     \<le> lf_sched_number_of_workers (shared example_locked)
   \<and> lf_sched_number_of_workers (shared example_locked) = 2
   \<and> card (idle_workers example_locked) = 0"
proof -
  have "lf_sched_number_of_workers (shared example_locked) = 2"
    by (simp add: example_locked_def lf_mutex_lock_def set_mutex_def example_workers)
  moreover have "idle_workers example_locked = {}"
    by (auto simp: idle_workers_def example_locked_def counted_idle_def)
  ultimately show ?thesis
    using C9_idle_workers_bounded [OF example_locked_reachable] by simp
qed

end
